theory Spec2Isabelle
  imports Main
begin

section \<open>Python values\<close>

text \<open>
  The runner works on duck-typed values: records fetched from the Jamf client, resource
  objects, strings, numbers, dictionaries. They are embedded as one datatype.

  \<^item> Strings are lists of 8-bit characters, read as the code points 0 to 255.
  \<^item> A dictionary is an association list with field names as keys (the first binding of a
    key is the one that counts) and an identity tag: \<open>Some a\<close> is the address of a
    dictionary object, \<open>None\<close> a dictionary whose identity the model does not track.
  \<^item> A callable taking no argument carries what calling it does (return or raise); a
    callable taking one argument carries a table from string arguments to outcomes and
    the outcome for every other argument. Both carry the text \<open>repr\<close> shows.
  \<^item> An instance has an address (what \<open>id\<close> returns), the text \<open>repr\<close> and
    \<open>str\<close> show, and named attributes: instance fields (the entries of
    \<open>__dict__\<close>), class attributes (methods, class constants), and properties whose
    getter raises.
  Floating-point numbers are not represented.
\<close>

datatype exn =
    AttributeError
  | TypeError
  | ValueError
  | KeyError
  | OtherError string
  | SystemExit
  | KeyboardInterrupt

datatype 'v attr = IField 'v | CAttr 'v | PropRaise exn

datatype pyval =
    PNone
  | PBool bool
  | PInt int
  | PStr string
  | PBytes string
  | PList "pyval list"
  | PTuple "pyval list"
  | PDict "nat option" "(string \<times> pyval) list"
  | PFun0 string "exn + pyval"
  | PFun1 string "(string \<times> (exn + pyval)) list" "exn + pyval"
  | PObj nat string "(string \<times> pyval attr) list"

text \<open>\<open>except Exception\<close> catches every exception but those deriving from
  \<open>BaseException\<close> alone.\<close>

definition is_Exception :: "exn \<Rightarrow> bool" where
  "is_Exception e = (e \<noteq> SystemExit \<and> e \<noteq> KeyboardInterrupt)"

section \<open>Strings\<close>

definition code :: "char \<Rightarrow> nat" where
  "code c = of_char c"

definition is_space :: "char \<Rightarrow> bool" where
  "is_space c = (let n = code c in
     (9 \<le> n \<and> n \<le> 13) \<or> (28 \<le> n \<and> n \<le> 32) \<or> n = 133 \<or> n = 160)"

definition is_digit :: "char \<Rightarrow> bool" where
  "is_digit c = (let n = code c in (48 \<le> n \<and> n \<le> 57) \<or> n = 178 \<or> n = 179 \<or> n = 185)"

definition lower_char :: "char \<Rightarrow> char" where
  "lower_char c = (let n = code c in
     if (65 \<le> n \<and> n \<le> 90) \<or> (192 \<le> n \<and> n \<le> 222 \<and> n \<noteq> 215)
     then char_of (n + 32) else c)"

definition py_lower :: "string \<Rightarrow> string" where
  "py_lower s = map lower_char s"

definition strip_where :: "(char \<Rightarrow> bool) \<Rightarrow> string \<Rightarrow> string" where
  "strip_where p s = rev (dropWhile p (rev (dropWhile p s)))"

definition py_strip :: "string \<Rightarrow> string" where
  "py_strip s = strip_where is_space s"

definition join :: "string \<Rightarrow> string list \<Rightarrow> string" where
  "join sep xs = (case xs of [] \<Rightarrow> [] | y # ys \<Rightarrow> y @ concat (map (\<lambda>z. sep @ z) ys))"

definition digit_char :: "nat \<Rightarrow> char" where
  "digit_char d = char_of (48 + d)"

function str_nat :: "nat \<Rightarrow> string" where
  "str_nat n = (if n < 10 then [digit_char n] else str_nat (n div 10) @ [digit_char (n mod 10)])"
  by pat_completeness auto
termination
  by (relation "measure id") auto

definition str_int :: "int \<Rightarrow> string" where
  "str_int i = (if i < 0 then CHR ''-'' # str_nat (nat (- i)) else str_nat (nat i))"

definition hex_char :: "nat \<Rightarrow> char" where
  "hex_char d = (if d < 10 then char_of (48 + d) else char_of (87 + d))"

definition hex2 :: "nat \<Rightarrow> string" where
  "hex2 n = [hex_char (n div 16), hex_char (n mod 16)]"

subsection \<open>\<open>repr\<close> and \<open>str\<close>\<close>

definition quote_of :: "string \<Rightarrow> char" where
  "quote_of s = (if CHR 0x27 \<in> set s \<and> CHR 0x22 \<notin> set s then CHR 0x22 else CHR 0x27)"

definition str_printable :: "char \<Rightarrow> bool" where
  "str_printable c = (let n = code c in (32 \<le> n \<and> n \<le> 126) \<or> (161 \<le> n \<and> n \<noteq> 173))"

definition repr_char :: "bool \<Rightarrow> char \<Rightarrow> char \<Rightarrow> string" where
  "repr_char unicode q c =
     (if c = q \<or> c = CHR 0x5C then [CHR 0x5C, c]
      else if c = CHR 0x09 then [CHR 0x5C, CHR ''t'']
      else if c = CHR 0x0A then [CHR 0x5C, CHR ''n'']
      else if c = CHR 0x0D then [CHR 0x5C, CHR ''r'']
      else if (if unicode then str_printable c else 32 \<le> code c \<and> code c \<le> 126) then [c]
      else [CHR 0x5C, CHR ''x''] @ hex2 (code c))"

definition repr_str :: "string \<Rightarrow> string" where
  "repr_str s = (let q = quote_of s in [q] @ concat (map (repr_char True q) s) @ [q])"

definition repr_bytes :: "string \<Rightarrow> string" where
  "repr_bytes s = (let q = quote_of s in [CHR ''b'', q] @ concat (map (repr_char False q) s) @ [q])"

text \<open>\<open>repr\<close> and \<open>str\<close> as the built-in types have them, where they raise nothing;
  an instance shows its text. For an instance whose class defines \<open>__repr__\<close> or
  \<open>__str__\<close>, which may raise, see \<open>repr_of\<close> and \<open>str_of\<close> below.\<close>

fun py_repr :: "pyval \<Rightarrow> string" where
  "py_repr PNone = ''None''"
| "py_repr (PBool b) = (if b then ''True'' else ''False'')"
| "py_repr (PInt i) = str_int i"
| "py_repr (PStr s) = repr_str s"
| "py_repr (PBytes s) = repr_bytes s"
| "py_repr (PList xs) = ''['' @ join '', '' (map py_repr xs) @ '']''"
| "py_repr (PTuple xs) =
     (case xs of [x] \<Rightarrow> ''('' @ py_repr x @ '',)''
      | _ \<Rightarrow> ''('' @ join '', '' (map py_repr xs) @ '')'')"
| "py_repr (PDict a kvs) =
     ''{'' @ join '', '' (map (\<lambda>kv. repr_str (fst kv) @ '': '' @ py_repr (snd kv)) kvs) @ ''}''"
| "py_repr (PFun0 r out) = r"
| "py_repr (PFun1 r tbl dflt) = r"
| "py_repr (PObj a r attrs) = r"

definition py_str :: "pyval \<Rightarrow> string" where
  "py_str v = (case v of PStr s \<Rightarrow> s | _ \<Rightarrow> py_repr v)"

section \<open>The object protocol\<close>

text \<open>What the runner asks of a value: truth value, attribute reads, calls, iteration,
  indexing, \<open>vars\<close>. Each operation that can raise returns a sum, \<open>Inl\<close> the
  exception.\<close>

text \<open>The truth value as the built-in types have it; an instance counts as true. For an
  instance whose class defines \<open>__bool__\<close> or \<open>__len__\<close>, which may raise, see
  \<open>bool_of\<close> below.\<close>

fun truthy :: "pyval \<Rightarrow> bool" where
  "truthy PNone = False"
| "truthy (PBool b) = b"
| "truthy (PInt i) = (i \<noteq> 0)"
| "truthy (PStr s) = (s \<noteq> [])"
| "truthy (PBytes s) = (s \<noteq> [])"
| "truthy (PList xs) = (xs \<noteq> [])"
| "truthy (PTuple xs) = (xs \<noteq> [])"
| "truthy (PDict a kvs) = (kvs \<noteq> [])"
| "truthy (PFun0 r out) = True"
| "truthy (PFun1 r tbl dflt) = True"
| "truthy (PObj a r attrs) = True"

fun is_dict :: "pyval \<Rightarrow> bool" where
  "is_dict (PDict a kvs) = True"
| "is_dict _ = False"

fun is_callable :: "pyval \<Rightarrow> bool" where
  "is_callable (PFun0 r out) = True"
| "is_callable (PFun1 r tbl dflt) = True"
| "is_callable _ = False"

fun dict_put :: "(string \<times> 'v) list \<Rightarrow> string \<Rightarrow> 'v \<Rightarrow> (string \<times> 'v) list" where
  "dict_put [] k v = [(k, v)]"
| "dict_put (kv # kvs) k v = (if fst kv = k then (k, v) # kvs else kv # dict_put kvs k v)"

text \<open>Reading an attribute: \<open>Inr None\<close> is \<open>AttributeError\<close> (the attribute is
  absent, or its getter raised \<open>AttributeError\<close>); a getter raising anything else
  gives \<open>Inl\<close>. A dictionary answers for its bound methods \<open>get\<close>, \<open>keys\<close>,
  \<open>values\<close> and \<open>items\<close>; no other built-in value has an attribute of a name the
  runner reads.\<close>

fun py_getattr :: "pyval \<Rightarrow> string \<Rightarrow> exn + pyval option" where
  "py_getattr (PObj a r attrs) name =
     (case map_of attrs name of
        None \<Rightarrow> Inr None
      | Some (IField v) \<Rightarrow> Inr (Some v)
      | Some (CAttr v) \<Rightarrow> Inr (Some v)
      | Some (PropRaise e) \<Rightarrow> (if e = AttributeError then Inr None else Inl e))"
| "py_getattr (PDict a kvs) name =
     (if name = ''get''
        then Inr (Some (PFun1 ''<built-in method get of dict object>''
                          (map (\<lambda>kv. (fst kv, Inr (snd kv))) kvs) (Inr PNone)))
      else if name = ''keys''
        then Inr (Some (PFun0 ''<built-in method keys of dict object>''
                          (Inr (PList (map (\<lambda>kv. PStr (fst kv)) kvs)))))
      else if name = ''values''
        then Inr (Some (PFun0 ''<built-in method values of dict object>''
                          (Inr (PList (map snd kvs)))))
      else if name = ''items''
        then Inr (Some (PFun0 ''<built-in method items of dict object>''
                          (Inr (PList (map (\<lambda>kv. PTuple [PStr (fst kv), snd kv]) kvs)))))
      else Inr None)"
| "py_getattr _ name = Inr None"

text \<open>\<open>getattr(o, name, None)\<close> and \<open>hasattr(o, name)\<close> suppress
  \<open>AttributeError\<close> only.\<close>

definition getattr_default :: "pyval \<Rightarrow> string \<Rightarrow> exn + pyval" where
  "getattr_default ob name =
     (case py_getattr ob name of
        Inl e \<Rightarrow> Inl e
      | Inr None \<Rightarrow> Inr PNone
      | Inr (Some v) \<Rightarrow> Inr v)"

definition hasattr :: "pyval \<Rightarrow> string \<Rightarrow> exn + bool" where
  "hasattr ob name =
     (case py_getattr ob name of
        Inl e \<Rightarrow> Inl e
      | Inr r \<Rightarrow> Inr (r \<noteq> None))"

fun call0 :: "pyval \<Rightarrow> exn + pyval" where
  "call0 (PFun0 r out) = out"
| "call0 _ = Inl TypeError"

definition call1 :: "pyval \<Rightarrow> pyval \<Rightarrow> exn + pyval" where
  "call1 f arg =
     (case f of
        PFun1 r tbl dflt \<Rightarrow>
          (case arg of
             PStr k \<Rightarrow> (case map_of tbl k of Some out \<Rightarrow> out | None \<Rightarrow> dflt)
           | _ \<Rightarrow> dflt)
      | _ \<Rightarrow> Inl TypeError)"

text \<open>\<open>list(v)\<close>. The \<open>__iter__\<close> of an instance is looked up on the class; calling
  it gives the elements the iteration yields (as a list or tuple), or raises.\<close>

fun py_list :: "pyval \<Rightarrow> exn + pyval list" where
  "py_list (PList xs) = Inr xs"
| "py_list (PTuple xs) = Inr xs"
| "py_list (PStr s) = Inr (map (\<lambda>c. PStr [c]) s)"
| "py_list (PBytes s) = Inr (map (\<lambda>c. PInt (int (code c))) s)"
| "py_list (PDict a kvs) = Inr (map (\<lambda>kv. PStr (fst kv)) kvs)"
| "py_list (PObj a r attrs) =
     (case map_of attrs ''__iter__'' of
        Some (CAttr f) \<Rightarrow>
          (case call0 f of
             Inl e \<Rightarrow> Inl e
           | Inr (PList xs) \<Rightarrow> Inr xs
           | Inr (PTuple xs) \<Rightarrow> Inr xs
           | Inr _ \<Rightarrow> Inl TypeError)
      | _ \<Rightarrow> Inl TypeError)"
| "py_list _ = Inl TypeError"

text \<open>\<open>isinstance(v, Iterable)\<close>: the class defines \<open>__iter__\<close>.\<close>

fun is_iterable :: "pyval \<Rightarrow> bool" where
  "is_iterable (PList xs) = True"
| "is_iterable (PTuple xs) = True"
| "is_iterable (PStr s) = True"
| "is_iterable (PBytes s) = True"
| "is_iterable (PDict a kvs) = True"
| "is_iterable (PObj a r attrs) =
     (case map_of attrs ''__iter__'' of Some (CAttr f) \<Rightarrow> f \<noteq> PNone | _ \<Rightarrow> False)"
| "is_iterable _ = False"

text \<open>\<open>hasattr(v, "__iter__")\<close>.\<close>

fun has_iter :: "pyval \<Rightarrow> exn + bool" where
  "has_iter (PObj a r attrs) = hasattr (PObj a r attrs) ''__iter__''"
| "has_iter v = Inr (is_iterable v)"

text \<open>\<open>v[k]\<close> for a string key \<open>k\<close>.\<close>

fun py_index :: "pyval \<Rightarrow> string \<Rightarrow> exn + pyval" where
  "py_index (PDict a kvs) k = (case map_of kvs k of Some v \<Rightarrow> Inr v | None \<Rightarrow> Inl KeyError)"
| "py_index (PObj a r attrs) k =
     (case map_of attrs ''__getitem__'' of
        Some (CAttr f) \<Rightarrow> call1 f (PStr k)
      | _ \<Rightarrow> Inl TypeError)"
| "py_index _ k = Inl TypeError"

text \<open>\<open>vars(v)\<close>: the instance fields, each name once.\<close>

function ifields :: "(string \<times> pyval attr) list \<Rightarrow> (string \<times> pyval) list" where
  "ifields [] = []"
| "ifields (ka # rest) =
     (case snd ka of IField v \<Rightarrow> [(fst ka, v)] | _ \<Rightarrow> [])
     @ ifields (filter (\<lambda>p. fst p \<noteq> fst ka) rest)"
  by pat_completeness auto
termination
  by (relation "measure length") (auto simp: less_Suc_eq_le)

fun py_vars :: "pyval \<Rightarrow> exn + (string \<times> pyval) list" where
  "py_vars (PObj a r attrs) = Inr (ifields attrs)"
| "py_vars _ = Inl TypeError"

text \<open>\<open>id(v)\<close>, for the values whose identity the model tracks.\<close>

fun py_id :: "pyval \<Rightarrow> nat option" where
  "py_id (PObj a r attrs) = Some a"
| "py_id (PDict a kvs) = a"
| "py_id _ = None"

section \<open>The shape prober\<close>

text \<open>\<open>json.loads\<close> is a function of the Python library; the prober and everything
  built on it take it as the parameter \<open>loads\<close>.\<close>

type_synonym json_loads = "pyval \<Rightarrow> exn + pyval"

definition json_try_parse :: "json_loads \<Rightarrow> pyval \<Rightarrow> exn + pyval" where
  "json_try_parse loads s =
     (case s of
        PStr t \<Rightarrow>
          (case loads s of Inl e \<Rightarrow> (if is_Exception e then Inr PNone else Inl e) | Inr v \<Rightarrow> Inr v)
      | PBytes t \<Rightarrow>
          (case loads s of Inl e \<Rightarrow> (if is_Exception e then Inr PNone else Inl e) | Inr v \<Rightarrow> Inr v)
      | _ \<Rightarrow> Inr PNone)"

definition container_attrs :: "string list" where
  "container_attrs = [''data'', ''_data'', ''payload'', ''_payload'', ''raw'', ''_raw'',
     ''value'', ''_value'', ''item'', ''obj'', ''object'', ''response'', ''record'',
     ''entity'', ''document'', ''body'']"

definition conversion_methods :: "string list" where
  "conversion_methods = [''to_dict'', ''dict'', ''model_dump'']"

text \<open>The dictionary comprehension \<open>{k: o.get(k) for k in o.keys()}\<close>, given the value
  of \<open>o.get\<close> and the keys still to visit. Dictionaries have field names as keys in
  this embedding, so the comprehension is given for string keys: at a key that is not a
  string, which the source binds like any other hashable key, it reports \<open>TypeError\<close>
  and the strategy is given up.\<close>

fun comprehend :: "pyval \<Rightarrow> pyval list \<Rightarrow> (string \<times> pyval) list \<Rightarrow> exn + (string \<times> pyval) list" where
  "comprehend g [] acc = Inr acc"
| "comprehend g (k # ks) acc =
     (case k of
        PStr n \<Rightarrow> (case call1 g k of Inl e \<Rightarrow> Inl e | Inr v \<Rightarrow> comprehend g ks (dict_put acc n v))
      | _ \<Rightarrow> Inl TypeError)"

definition materialize :: "pyval \<Rightarrow> exn + (string \<times> pyval) list" where
  "materialize ob =
     (case py_getattr ob ''keys'' of
        Inl e \<Rightarrow> Inl e
      | Inr None \<Rightarrow> Inl AttributeError
      | Inr (Some kf) \<Rightarrow>
          (case call0 kf of
             Inl e \<Rightarrow> Inl e
           | Inr kv \<Rightarrow>
               (case py_list kv of
                  Inl e \<Rightarrow> Inl e
                | Inr ks \<Rightarrow>
                    (case py_getattr ob ''get'' of
                       Inl e \<Rightarrow> Inl e
                     | Inr None \<Rightarrow> (if ks = [] then Inr [] else Inl AttributeError)
                     | Inr (Some g) \<Rightarrow> comprehend g ks []))))"

text \<open>The mapping-like strategy: \<open>Inr (Some d)\<close> when it produced a dictionary,
  \<open>Inr None\<close> when the value is not mapping-like or the comprehension failed with an
  \<open>Exception\<close>, \<open>Inl\<close> when an exception escapes.\<close>

definition mapping_like :: "pyval \<Rightarrow> exn + pyval option" where
  "mapping_like ob =
     (case hasattr ob ''keys'' of
        Inl e \<Rightarrow> Inl e
      | Inr False \<Rightarrow> Inr None
      | Inr True \<Rightarrow>
          (case hasattr ob ''get'' of
             Inl e \<Rightarrow> Inl e
           | Inr False \<Rightarrow> Inr None
           | Inr True \<Rightarrow>
               (case materialize ob of
                  Inl e \<Rightarrow> (if is_Exception e then Inr None else Inl e)
                | Inr kvs \<Rightarrow> Inr (Some (PDict None kvs)))))"

text \<open>The \<open>json\<close> strategy.\<close>

definition json_probe :: "json_loads \<Rightarrow> pyval \<Rightarrow> exn + pyval option" where
  "json_probe loads ob =
     (case getattr_default ob ''json'' of
        Inl e \<Rightarrow> Inl e
      | Inr fn \<Rightarrow>
          (if is_callable fn then
             (case call0 fn of
                Inl e \<Rightarrow> (if is_Exception e then Inr None else Inl e)
              | Inr s \<Rightarrow>
                  (case json_try_parse loads s of
                     Inl e \<Rightarrow> (if is_Exception e then Inr None else Inl e)
                   | Inr d \<Rightarrow> (if is_dict d then Inr (Some d) else Inr None)))
           else Inr None))"

definition seen_hit :: "nat list \<Rightarrow> pyval \<Rightarrow> bool" where
  "seen_hit seen ob = (case py_id ob of Some a \<Rightarrow> a \<in> set seen | None \<Rightarrow> False)"

definition mark :: "nat list \<Rightarrow> pyval \<Rightarrow> nat list" where
  "mark seen ob = (case py_id ob of Some a \<Rightarrow> a # seen | None \<Rightarrow> seen)"

text \<open>
  \<open>_walk\<close>, with the set \<open>seen\<close> of the enclosing call passed in and returned (it is
  updated in place, so an update made before an exception was caught stays). The result is
  \<open>Inr (Some d)\<close> for a dictionary \<open>d\<close>, \<open>Inr None\<close> for Python's \<open>None\<close>,
  \<open>Inl e\<close> when the exception \<open>e\<close> leaves the call. The two loops over attribute names
  are \<open>walk_containers\<close> and \<open>walk_methods\<close>, with the names still to try.

  Only the identities of instances and tracked dictionaries are recorded in \<open>seen\<close>: every
  other value has none of the attributes read here and no \<open>__dict__\<close>, so a visit of it
  returns \<open>None\<close> whether or not it was seen before.
\<close>

function walk :: "json_loads \<Rightarrow> nat list \<Rightarrow> pyval \<Rightarrow> int \<Rightarrow> (exn + pyval option) \<times> nat list"
  and walk_containers ::
    "json_loads \<Rightarrow> nat list \<Rightarrow> pyval \<Rightarrow> int \<Rightarrow> string list \<Rightarrow> (exn + pyval option) \<times> nat list"
  and walk_methods ::
    "json_loads \<Rightarrow> nat list \<Rightarrow> pyval \<Rightarrow> int \<Rightarrow> string list \<Rightarrow> (exn + pyval option) \<times> nat list"
where
  "walk loads seen ob depth =
     (if ob = PNone then (Inr None, seen)
      else if seen_hit seen ob \<or> depth < 0 then (Inr None, seen)
      else if is_dict ob then (Inr (Some ob), mark seen ob)
      else
        (case mapping_like ob of
           Inl e \<Rightarrow> (Inl e, mark seen ob)
         | Inr (Some d) \<Rightarrow> (Inr (Some d), mark seen ob)
         | Inr None \<Rightarrow>
        (case walk_containers loads (mark seen ob) ob depth container_attrs of
           (Inl e, s1) \<Rightarrow> (Inl e, s1)
         | (Inr (Some d), s1) \<Rightarrow> (Inr (Some d), s1)
         | (Inr None, s1) \<Rightarrow>
        (case walk_methods loads s1 ob depth conversion_methods of
           (Inl e, s2) \<Rightarrow> (Inl e, s2)
         | (Inr (Some d), s2) \<Rightarrow> (Inr (Some d), s2)
         | (Inr None, s2) \<Rightarrow>
        (case json_probe loads ob of
           Inl e \<Rightarrow> (Inl e, s2)
         | Inr (Some d) \<Rightarrow> (Inr (Some d), s2)
         | Inr None \<Rightarrow>
        (case py_vars ob of
           Inl e \<Rightarrow> (if is_Exception e then (Inr None, s2) else (Inl e, s2))
         | Inr v \<Rightarrow>
             (if v \<noteq> [] then
                (if length v = 1 then
                   (case walk loads s2 (snd (hd v)) (depth - 1) of
                      (Inl e, s3) \<Rightarrow> (if is_Exception e then (Inr None, s3) else (Inl e, s3))
                    | (Inr (Some d), s3) \<Rightarrow> (Inr (Some d), s3)
                    | (Inr None, s3) \<Rightarrow> (Inr (Some (PDict None v)), s3))
                 else (Inr (Some (PDict None v)), s2))
              else (Inr None, s2))))))))"
| "walk_containers loads seen ob depth [] = (Inr None, seen)"
| "walk_containers loads seen ob depth (attr # rest) =
     (case getattr_default ob attr of
        Inl e \<Rightarrow> (Inl e, seen)
      | Inr v \<Rightarrow>
          (if is_dict v then (Inr (Some v), seen)
           else if v \<noteq> PNone then
             (case walk loads seen v (depth - 1) of
                (Inl e, s) \<Rightarrow> (Inl e, s)
              | (Inr (Some d), s) \<Rightarrow> (Inr (Some d), s)
              | (Inr None, s) \<Rightarrow> walk_containers loads s ob depth rest)
           else walk_containers loads seen ob depth rest))"
| "walk_methods loads seen ob depth [] = (Inr None, seen)"
| "walk_methods loads seen ob depth (meth # rest) =
     (case getattr_default ob meth of
        Inl e \<Rightarrow> (Inl e, seen)
      | Inr fn \<Rightarrow>
          (if is_callable fn then
             (case call0 fn of
                Inl e \<Rightarrow> (if is_Exception e then walk_methods loads seen ob depth rest else (Inl e, seen))
              | Inr v \<Rightarrow>
                  (if is_dict v then (Inr (Some v), seen)
                   else
                     (case walk loads seen v (depth - 1) of
                        (Inl e, s) \<Rightarrow>
                          (if is_Exception e then walk_methods loads s ob depth rest else (Inl e, s))
                      | (Inr (Some d), s) \<Rightarrow> (Inr (Some d), s)
                      | (Inr None, s) \<Rightarrow> walk_methods loads s ob depth rest)))
           else walk_methods loads seen ob depth rest))"
  by pat_completeness auto
termination
  by (relation "measure (\<lambda>x. case x of
         Inl (loads, seen, ob, depth) \<Rightarrow> 20 * nat (depth + 1)
       | Inr (Inl (loads, seen, ob, depth, names)) \<Rightarrow> 20 * nat depth + length names + 1
       | Inr (Inr (loads, seen, ob, depth, names)) \<Rightarrow> 20 * nat depth + length names + 1)")
    (auto simp: container_attrs_def conversion_methods_def)

definition obj_to_dict_deep :: "json_loads \<Rightarrow> pyval \<Rightarrow> int \<Rightarrow> exn + pyval option" where
  "obj_to_dict_deep loads obj max_depth = fst (walk loads [] obj max_depth)"

section \<open>The name sanitizer\<close>

text \<open>\<open>re.sub(r"[^a-z0-9_]+", "_", s)\<close>: every maximal run of characters outside the
  class becomes one underscore.\<close>

definition in_class :: "char \<Rightarrow> bool" where
  "in_class c = (let n = code c in
     (97 \<le> n \<and> n \<le> 122) \<or> (48 \<le> n \<and> n \<le> 57) \<or> n = 95)"

function re_sub_runs :: "string \<Rightarrow> string" where
  "re_sub_runs [] = []"
| "re_sub_runs (c # cs) =
     (if in_class c then c # re_sub_runs cs
      else CHR ''_'' # re_sub_runs (dropWhile (\<lambda>x. \<not> in_class x) cs))"
  by pat_completeness auto
termination
  by (relation "measure length") (auto simp: less_Suc_eq_le length_dropWhile_le)

definition sanitize_name :: "pyval \<Rightarrow> string" where
  "sanitize_name v =
     (let s = py_lower (py_strip (py_str v));
          s = re_sub_runs s;
          s = strip_where (\<lambda>c. c = CHR ''_'') s
      in if s = [] \<or> is_digit (hd s)
         then (if s \<noteq> [] then ''r_'' @ s else ''r'')
         else s)"

text \<open>The pattern \<open>^[a-z_][a-z0-9_]*$\<close>, matched against the whole string.\<close>

definition ident_start :: "char \<Rightarrow> bool" where
  "ident_start c = (let n = code c in (97 \<le> n \<and> n \<le> 122) \<or> n = 95)"

definition matches_ident :: "string \<Rightarrow> bool" where
  "matches_ident s = (case s of [] \<Rightarrow> False | c # cs \<Rightarrow> ident_start c \<and> list_all in_class cs)"

section \<open>Identifier and name extraction\<close>

definition id_keys :: "string list" where
  "id_keys = [''jpro_id'', ''id'', ''Id'', ''ID'', ''profileId'', ''profileID'', ''uuid'', ''uid'']"

definition nested_keys :: "string list" where
  "nested_keys = [''general'', ''profile'', ''configurationProfile'', ''payloadContent'', ''data'']"

definition nested_id_keys :: "string list" where
  "nested_id_keys = [''jpro_id'', ''id'', ''uuid'', ''profileId'']"

definition name_keys :: "string list" where
  "name_keys = [''name'', ''displayName'', ''profileName'', ''computer_group_name'', ''generalName'']"

definition name_attrs :: "string list" where
  "name_attrs = [''name'', ''displayName'', ''profileName'']"

text \<open>\<open>for k in (...): if k in d and d[k] is not None and d[k] != "": return str(d[k])\<close>\<close>

fun scan_top :: "(string \<times> pyval) list \<Rightarrow> string list \<Rightarrow> string option" where
  "scan_top kvs [] = None"
| "scan_top kvs (k # ks) =
     (case map_of kvs k of
        Some v \<Rightarrow> (if v \<noteq> PNone \<and> v \<noteq> PStr [] then Some (py_str v) else scan_top kvs ks)
      | None \<Rightarrow> scan_top kvs ks)"

text \<open>\<open>for ik in (...): if sub.get(ik): return str(sub[ik])\<close>\<close>

fun scan_sub :: "(string \<times> pyval) list \<Rightarrow> string list \<Rightarrow> string option" where
  "scan_sub sub [] = None"
| "scan_sub sub (ik # iks) =
     (case map_of sub ik of
        Some v \<Rightarrow> (if truthy v then Some (py_str v) else scan_sub sub iks)
      | None \<Rightarrow> scan_sub sub iks)"

fun scan_nested :: "(string \<times> pyval) list \<Rightarrow> string list \<Rightarrow> string option" where
  "scan_nested kvs [] = None"
| "scan_nested kvs (k # ks) =
     (case map_of kvs k of
        Some (PDict a sub) \<Rightarrow>
          (case scan_sub sub nested_id_keys of
             Some r \<Rightarrow> Some r
           | None \<Rightarrow> scan_nested kvs ks)
      | _ \<Rightarrow> scan_nested kvs ks)"

text \<open>\<open>for k in (...): v = getattr(item, k, None); if v: return str(v)\<close>\<close>

fun scan_attrs :: "pyval \<Rightarrow> string list \<Rightarrow> exn + string option" where
  "scan_attrs item [] = Inr None"
| "scan_attrs item (k # ks) =
     (case getattr_default item k of
        Inl e \<Rightarrow> Inl e
      | Inr v \<Rightarrow> (if truthy v then Inr (Some (py_str v)) else scan_attrs item ks))"

text \<open>\<open>for k in (...): try: v = get(k); if v: return str(v); except Exception: pass\<close>\<close>

fun scan_get :: "pyval \<Rightarrow> string list \<Rightarrow> exn + string option" where
  "scan_get g [] = Inr None"
| "scan_get g (k # ks) =
     (case call1 g (PStr k) of
        Inl e \<Rightarrow> (if is_Exception e then scan_get g ks else Inl e)
      | Inr v \<Rightarrow> (if truthy v then Inr (Some (py_str v)) else scan_get g ks))"

text \<open>\<open>try: v = item[k]; if v: return str(v); except Exception: pass\<close>\<close>

definition try_index :: "pyval \<Rightarrow> string \<Rightarrow> exn + string option" where
  "try_index item k =
     (case py_index item k of
        Inl e \<Rightarrow> (if is_Exception e then Inr None else Inl e)
      | Inr v \<Rightarrow> (if truthy v then Inr (Some (py_str v)) else Inr None))"

text \<open>The part of \<open>extract_id_any\<close> after the probed dictionary gave nothing: attribute
  fallbacks, mapping-style \<open>get\<close>, indexing.\<close>

definition id_fallbacks :: "pyval \<Rightarrow> exn + string option" where
  "id_fallbacks item =
     (case scan_attrs item id_keys of
        Inl e \<Rightarrow> Inl e
      | Inr (Some r) \<Rightarrow> Inr (Some r)
      | Inr None \<Rightarrow>
     (case getattr_default item ''get'' of
        Inl e \<Rightarrow> Inl e
      | Inr g \<Rightarrow>
     (case (if is_callable g then scan_get g nested_id_keys else Inr None) of
        Inl e \<Rightarrow> Inl e
      | Inr (Some r) \<Rightarrow> Inr (Some r)
      | Inr None \<Rightarrow>
     (case try_index item ''jpro_id'' of
        Inl e \<Rightarrow> Inl e
      | Inr (Some r) \<Rightarrow> Inr (Some r)
      | Inr None \<Rightarrow> try_index item ''id''))))"

text \<open>\<open>extract_id_any\<close>, up to its first \<open>return None\<close>; the statements after it in
  the source are never reached.\<close>

definition extract_id_any :: "json_loads \<Rightarrow> pyval \<Rightarrow> exn + string option" where
  "extract_id_any loads item =
     (case obj_to_dict_deep loads item 3 of
        Inl e \<Rightarrow> Inl e
      | Inr (Some (PDict a kvs)) \<Rightarrow>
          (case scan_top kvs id_keys of
             Some r \<Rightarrow> Inr (Some r)
           | None \<Rightarrow>
               (case scan_nested kvs nested_keys of
                  Some r \<Rightarrow> Inr (Some r)
                | None \<Rightarrow> id_fallbacks item))
      | Inr _ \<Rightarrow> id_fallbacks item)"

text \<open>\<open>for k in (...): if d.get(k): return sanitize_name(d[k])\<close>\<close>

fun scan_names :: "(string \<times> pyval) list \<Rightarrow> string list \<Rightarrow> string option" where
  "scan_names kvs [] = None"
| "scan_names kvs (k # ks) =
     (case map_of kvs k of
        Some v \<Rightarrow> (if truthy v then Some (sanitize_name v) else scan_names kvs ks)
      | None \<Rightarrow> scan_names kvs ks)"

fun scan_nested_names :: "(string \<times> pyval) list \<Rightarrow> string list \<Rightarrow> string option" where
  "scan_nested_names kvs [] = None"
| "scan_nested_names kvs (k # ks) =
     (case map_of kvs k of
        Some (PDict a sub) \<Rightarrow>
          (case map_of sub ''name'' of
             Some v \<Rightarrow> (if truthy v then Some (sanitize_name v) else scan_nested_names kvs ks)
           | None \<Rightarrow> scan_nested_names kvs ks)
      | _ \<Rightarrow> scan_nested_names kvs ks)"

fun scan_name_attrs :: "pyval \<Rightarrow> string list \<Rightarrow> exn + string option" where
  "scan_name_attrs item [] = Inr None"
| "scan_name_attrs item (k # ks) =
     (case getattr_default item k of
        Inl e \<Rightarrow> Inl e
      | Inr v \<Rightarrow> (if truthy v then Inr (Some (sanitize_name v)) else scan_name_attrs item ks))"

definition name_fallbacks :: "pyval \<Rightarrow> string \<Rightarrow> exn + string" where
  "name_fallbacks item fallback_id =
     (case scan_name_attrs item name_attrs of
        Inl e \<Rightarrow> Inl e
      | Inr (Some r) \<Rightarrow> Inr r
      | Inr None \<Rightarrow> Inr (sanitize_name (PStr (''id_'' @ fallback_id))))"

definition extract_name_any :: "json_loads \<Rightarrow> pyval \<Rightarrow> string \<Rightarrow> exn + string" where
  "extract_name_any loads item fallback_id =
     (case obj_to_dict_deep loads item 3 of
        Inl e \<Rightarrow> Inl e
      | Inr (Some (PDict a kvs)) \<Rightarrow>
          (case scan_names kvs name_keys of
             Some r \<Rightarrow> Inr r
           | None \<Rightarrow>
               (case scan_nested_names kvs nested_keys of
                  Some r \<Rightarrow> Inr r
                | None \<Rightarrow> name_fallbacks item fallback_id))
      | Inr _ \<Rightarrow> name_fallbacks item fallback_id)"

section \<open>The kind classifier\<close>

definition TERRAFORM_TYPE_MAP :: "(string \<times> string) list" where
  "TERRAFORM_TYPE_MAP =
     [(''MACOS_CONFIG_PROFILE'', ''jamfpro_macos_configuration_profile_plist''),
      (''SCRIPT'', ''jamfpro_script''),
      (''CATEGORY'', ''jamfpro_category''),
      (''POLICY'', ''jamfpro_policy''),
      (''STATIC_COMPUTER_GROUP'', ''jamfpro_static_computer_group''),
      (''SMART_COMPUTER_GROUP'', ''jamfpro_smart_computer_group''),
      (''ADVANCED_COMPUTER_SEARCH'', ''jamfpro_advanced_computer_search''),
      (''COMPUTER_EXTENSION_ATTRIBUTE'', ''jamfpro_computer_extension_attribute'')]"

fun starts_with :: "string \<Rightarrow> string \<Rightarrow> bool" where
  "starts_with [] s = True"
| "starts_with (k # ks) [] = False"
| "starts_with (k # ks) (c # cs) = (k = c \<and> starts_with ks cs)"

text \<open>\<open>key in tag\<close> for strings.\<close>

fun contains :: "string \<Rightarrow> string \<Rightarrow> bool" where
  "contains key [] = starts_with key []"
| "contains key (c # cs) = (starts_with key (c # cs) \<or> contains key cs)"

text \<open>\<open>re.search\<close> for an alternation of literal tokens: the leftmost position where a
  token starts, and there the first token in the order of the alternation.\<close>

fun re_search :: "string list \<Rightarrow> string \<Rightarrow> string option" where
  "re_search toks [] = find (\<lambda>k. starts_with k []) toks"
| "re_search toks (c # cs) =
     (case find (\<lambda>k. starts_with k (c # cs)) toks of
        Some k \<Rightarrow> Some k
      | None \<Rightarrow> re_search toks cs)"

definition tag_tokens :: "string list" where
  "tag_tokens = [''MACOS_CONFIG_PROFILE'', ''SCRIPT'', ''CATEGORY'', ''POLICY'',
     ''STATIC_COMPUTER_GROUP'', ''SMART_COMPUTER_GROUP'', ''ADVANCED_COMPUTER_SEARCH'',
     ''COMPUTER_EXTENSION_ATTRIBUTE'']"

definition detect_tag :: "pyval \<Rightarrow> exn + string" where
  "detect_tag res =
     (case getattr_default res ''resource_type'' of
        Inl e \<Rightarrow> Inl e
      | Inr t \<Rightarrow>
          (case (if t = PNone then getattr_default res ''provider_tag'' else Inr t) of
             Inl e \<Rightarrow> Inl e
           | Inr tag \<Rightarrow>
               (let tag_str = py_str tag
                in case re_search tag_tokens tag_str of
                     Some m \<Rightarrow> Inr m
                   | None \<Rightarrow> Inr tag_str)))"

text \<open>The loop over \<open>TERRAFORM_TYPE_MAP.items()\<close> in \<open>compose_import_hcl\<close>.\<close>

definition classify :: "string \<Rightarrow> string option" where
  "classify tag = map_option snd (find (\<lambda>kv. contains (fst kv) tag) TERRAFORM_TYPE_MAP)"

section \<open>The item accessor\<close>

definition cand_attrs :: "string list" where
  "cand_attrs = [''data'', ''_data'', ''dataset'', ''items'', ''all'']"

definition getter_methods :: "string list" where
  "getter_methods = [''get_all'', ''to_list'', ''list'', ''all'']"

text \<open>\<open>try: val = fn(); if isinstance(val, list): return val;
  if isinstance(val, Iterable): return list(val); except Exception: pass\<close>.
  \<open>Inr (Some xs)\<close> is a return, \<open>Inr None\<close> falls through.\<close>

definition items_from_call :: "pyval \<Rightarrow> exn + pyval list option" where
  "items_from_call fn =
     (case call0 fn of
        Inl e \<Rightarrow> (if is_Exception e then Inr None else Inl e)
      | Inr val \<Rightarrow>
          (case val of
             PList xs \<Rightarrow> Inr (Some xs)
           | _ \<Rightarrow>
               (if is_iterable val then
                  (case py_list val of
                     Inl e \<Rightarrow> (if is_Exception e then Inr None else Inl e)
                   | Inr xs \<Rightarrow> Inr (Some xs))
                else Inr None)))"

definition items_direct :: "pyval \<Rightarrow> exn + pyval list option" where
  "items_direct obj =
     (case obj of
        PList xs \<Rightarrow> Inr (Some xs)
      | _ \<Rightarrow>
          (if obj \<noteq> PNone then
             (case has_iter obj of
                Inl e \<Rightarrow> Inl e
              | Inr h \<Rightarrow>
                  (if h \<and> (case obj of PStr s \<Rightarrow> False | PBytes s \<Rightarrow> False | PDict a kvs \<Rightarrow> False | _ \<Rightarrow> True)
                   then
                     (case py_list obj of
                        Inl e \<Rightarrow> (if is_Exception e then Inr None else Inl e)
                      | Inr xs \<Rightarrow> Inr (Some xs))
                   else Inr None))
           else Inr None))"

fun items_from_attrs :: "pyval \<Rightarrow> string list \<Rightarrow> exn + pyval list option" where
  "items_from_attrs res [] = Inr None"
| "items_from_attrs res (attr # rest) =
     (case getattr_default res attr of
        Inl e \<Rightarrow> Inl e
      | Inr obj \<Rightarrow>
          (case (if is_callable obj then items_from_call obj else Inr None) of
             Inl e \<Rightarrow> Inl e
           | Inr (Some xs) \<Rightarrow> Inr (Some xs)
           | Inr None \<Rightarrow>
               (case items_direct obj of
                  Inl e \<Rightarrow> Inl e
                | Inr (Some xs) \<Rightarrow> Inr (Some xs)
                | Inr None \<Rightarrow> items_from_attrs res rest)))"

fun items_from_getters :: "pyval \<Rightarrow> string list \<Rightarrow> exn + pyval list option" where
  "items_from_getters res [] = Inr None"
| "items_from_getters res (meth # rest) =
     (case getattr_default res meth of
        Inl e \<Rightarrow> Inl e
      | Inr fn \<Rightarrow>
          (case (if is_callable fn then items_from_call fn else Inr None) of
             Inl e \<Rightarrow> Inl e
           | Inr (Some xs) \<Rightarrow> Inr (Some xs)
           | Inr None \<Rightarrow> items_from_getters res rest))"

definition iter_items_from_resource :: "pyval \<Rightarrow> exn + pyval list" where
  "iter_items_from_resource res =
     (case items_from_attrs res cand_attrs of
        Inl e \<Rightarrow> Inl e
      | Inr (Some xs) \<Rightarrow> Inr xs
      | Inr None \<Rightarrow>
          (case items_from_getters res getter_methods of
             Inl e \<Rightarrow> Inl e
           | Inr (Some xs) \<Rightarrow> Inr xs
           | Inr None \<Rightarrow> Inr []))"

section \<open>The import compiler\<close>

subsection \<open>\<open>json.dumps(v, ensure_ascii=False)\<close>\<close>

definition json_char :: "char \<Rightarrow> string" where
  "json_char c =
     (if c = CHR 0x22 then [CHR 0x5C, CHR 0x22]
      else if c = CHR 0x5C then [CHR 0x5C, CHR 0x5C]
      else if c = CHR 0x0A then [CHR 0x5C, CHR ''n'']
      else if c = CHR 0x0D then [CHR 0x5C, CHR ''r'']
      else if c = CHR 0x09 then [CHR 0x5C, CHR ''t'']
      else if c = CHR 0x08 then [CHR 0x5C, CHR ''b'']
      else if c = CHR 0x0C then [CHR 0x5C, CHR ''f'']
      else if code c < 32 then [CHR 0x5C, CHR ''u'', CHR ''0'', CHR ''0''] @ hex2 (code c)
      else [c])"

definition json_str :: "string \<Rightarrow> string" where
  "json_str s = [CHR 0x22] @ concat (map json_char s) @ [CHR 0x22]"

text \<open>The results of a list of steps, or the first exception.\<close>

fun collect :: "(exn + 'a) list \<Rightarrow> exn + 'a list" where
  "collect [] = Inr []"
| "collect (r # rs) =
     (case r of
        Inl e \<Rightarrow> Inl e
      | Inr x \<Rightarrow> (case collect rs of Inl e \<Rightarrow> Inl e | Inr xs \<Rightarrow> Inr (x # xs)))"

fun json_dumps :: "pyval \<Rightarrow> exn + string" where
  "json_dumps PNone = Inr ''null''"
| "json_dumps (PBool b) = Inr (if b then ''true'' else ''false'')"
| "json_dumps (PInt i) = Inr (str_int i)"
| "json_dumps (PStr s) = Inr (json_str s)"
| "json_dumps (PBytes s) = Inl TypeError"
| "json_dumps (PList xs) =
     (case collect (map json_dumps xs) of
        Inl e \<Rightarrow> Inl e
      | Inr ss \<Rightarrow> Inr (''['' @ join '', '' ss @ '']''))"
| "json_dumps (PTuple xs) =
     (case collect (map json_dumps xs) of
        Inl e \<Rightarrow> Inl e
      | Inr ss \<Rightarrow> Inr (''['' @ join '', '' ss @ '']''))"
| "json_dumps (PDict a kvs) =
     (case collect (map (\<lambda>kv. case json_dumps (snd kv) of
                                 Inl e \<Rightarrow> Inl e
                               | Inr t \<Rightarrow> Inr (json_str (fst kv) @ '': '' @ t)) kvs) of
        Inl e \<Rightarrow> Inl e
      | Inr ss \<Rightarrow> Inr (''{'' @ join '', '' ss @ ''}''))"
| "json_dumps (PFun0 r out) = Inl TypeError"
| "json_dumps (PFun1 r tbl dflt) = Inl TypeError"
| "json_dumps (PObj a r attrs) = Inl TypeError"

subsection \<open>The run\<close>

text \<open>The state of one run of \<open>compose_import_hcl\<close>: the blocks appended so far, the
  counter \<open>dumped\<close>, and the lines written to the sample file (each \<open>write\<close> appends one
  line; opening, writing and closing the file are taken to succeed).\<close>

record run =
  blocks :: "string list"
  dumped :: nat
  sample :: "string list"

definition dump_cap :: nat where
  "dump_cap = 20"

text \<open>The sample of one item:
  \<open>try: d = obj_to_dict_deep(item, max_depth=3);
  dumper.write(json.dumps(d if d is not None else {"repr": repr(item)}, ensure_ascii=False) + "\n");
  dumped += 1; except Exception: pass\<close>\<close>

definition sample_line :: "json_loads \<Rightarrow> pyval \<Rightarrow> exn + string" where
  "sample_line loads item =
     (case obj_to_dict_deep loads item 3 of
        Inl e \<Rightarrow> Inl e
      | Inr d \<Rightarrow>
          (case json_dumps (case d of Some v \<Rightarrow> v
                                     | None \<Rightarrow> PDict None [(''repr'', PStr (py_repr item))]) of
             Inl e \<Rightarrow> Inl e
           | Inr t \<Rightarrow> Inr (t @ [CHR 0x0A])))"

definition dump_item :: "json_loads \<Rightarrow> bool \<Rightarrow> run \<Rightarrow> pyval \<Rightarrow> exn + run" where
  "dump_item loads dumper st item =
     (if dumper \<and> dumped st < dump_cap then
        (case sample_line loads item of
           Inl e \<Rightarrow> (if is_Exception e then Inr st else Inl e)
         | Inr line \<Rightarrow> Inr (st\<lparr>sample := sample st @ [line], dumped := dumped st + 1\<rparr>))
      else Inr st)"

definition import_block :: "string \<Rightarrow> string \<Rightarrow> string \<Rightarrow> string" where
  "import_block rid tf_type local =
     ''import {'' @ [CHR 0x0A] @
     ''  id = '' @ [CHR 0x22] @ rid @ [CHR 0x22] @ [CHR 0x0A] @
     ''  to = '' @ tf_type @ ''.'' @ local @ [CHR 0x0A] @
     ''}''"

text \<open>What one item appends to \<open>blocks\<close>: an import block, or the diagnostic for an
  item without identifier.\<close>

definition item_entry :: "json_loads \<Rightarrow> string \<Rightarrow> string \<Rightarrow> pyval \<Rightarrow> exn + string" where
  "item_entry loads tf_type tag item =
     (case extract_id_any loads item of
        Inl e \<Rightarrow> Inl e
      | Inr rid \<Rightarrow>
          (case (case rid of None \<Rightarrow> None | Some r \<Rightarrow> (if r = [] then None else Some r)) of
             None \<Rightarrow> Inr (''# Could not extract id for item in '' @ tag @ '': '' @ py_repr item)
           | Some r \<Rightarrow>
               (case extract_name_any loads item r of
                  Inl e \<Rightarrow> Inl e
                | Inr local \<Rightarrow> Inr (import_block r tf_type local))))"

text \<open>The body of \<open>for item in items\<close>.\<close>

fun process_items :: "json_loads \<Rightarrow> bool \<Rightarrow> string \<Rightarrow> string \<Rightarrow> run \<Rightarrow> pyval list \<Rightarrow> exn + run" where
  "process_items loads dumper tf_type tag st [] = Inr st"
| "process_items loads dumper tf_type tag st (item # items) =
     (case dump_item loads dumper st item of
        Inl e \<Rightarrow> Inl e
      | Inr st1 \<Rightarrow>
          (case item_entry loads tf_type tag item of
             Inl e \<Rightarrow> Inl e
           | Inr b \<Rightarrow> process_items loads dumper tf_type tag (st1\<lparr>blocks := blocks st1 @ [b]\<rparr>) items))"

text \<open>The body of \<open>for res in resources\<close>.\<close>

definition process_resource :: "json_loads \<Rightarrow> bool \<Rightarrow> run \<Rightarrow> pyval \<Rightarrow> exn + run" where
  "process_resource loads dumper st res =
     (case detect_tag res of
        Inl e \<Rightarrow> Inl e
      | Inr tag \<Rightarrow>
          (case classify tag of
             None \<Rightarrow> Inr (st\<lparr>blocks := blocks st @ [''# Skipping unsupported resource tag: '' @ tag]\<rparr>)
           | Some tf_type \<Rightarrow>
               (case iter_items_from_resource res of
                  Inl e \<Rightarrow> Inl e
                | Inr items \<Rightarrow>
                    (if items = [] then
                       Inr (st\<lparr>blocks := blocks st @ [''# No items found for '' @ tag]\<rparr>)
                     else process_items loads dumper tf_type tag st items))))"

fun process_resources :: "json_loads \<Rightarrow> bool \<Rightarrow> run \<Rightarrow> pyval list \<Rightarrow> exn + run" where
  "process_resources loads dumper st [] = Inr st"
| "process_resources loads dumper st (res # rest) =
     (case process_resource loads dumper st res of
        Inl e \<Rightarrow> Inl e
      | Inr st1 \<Rightarrow> process_resources loads dumper st1 rest)"

text \<open>\<open>"\n\n".join(blocks) + ("\n" if blocks else "")\<close>\<close>

definition assemble :: "string list \<Rightarrow> string" where
  "assemble bs = join [CHR 0x0A, CHR 0x0A] bs @ (if bs \<noteq> [] then [CHR 0x0A] else [])"

text \<open>\<open>compose_import_hcl\<close>: the text returned, and the lines of the sample file when a
  non-empty \<open>dump_path\<close> was given. Opening, closing and the final \<open>print\<close> are
  taken to succeed here; \<open>compose_import_hcl_full\<close> below has them as steps that may
  raise.\<close>

definition compose_import_hcl ::
    "json_loads \<Rightarrow> pyval list \<Rightarrow> string option \<Rightarrow> exn + string \<times> string list option" where
  "compose_import_hcl loads resources dump_path =
     (let dumper = (dump_path \<noteq> None \<and> dump_path \<noteq> Some [])
      in case process_resources loads dumper \<lparr>blocks = [], dumped = 0, sample = []\<rparr> resources of
           Inl e \<Rightarrow> Inl e
         | Inr st \<Rightarrow> Inr (assemble (blocks st), if dumper then Some (sample st) else None))"

section \<open>Special methods and file operations\<close>

text \<open>
  The functions of the preceding sections take \<open>str\<close>, \<open>repr\<close>, the truth value
  and the comparison with \<open>""\<close> to be those of the built-in types, which raise nothing,
  and leave the sample file out. This section gives the extractors and the compile pass of
  the source with these operations spelled out: every \<open>str(...)\<close>, \<open>repr(...)\<close>,
  \<open>if v:\<close> and \<open>!= ""\<close> of the source is a step that may raise, and so are
  \<open>open\<close>, \<open>write\<close>, \<open>close\<close> and \<open>print\<close>.

  A class may define \<open>__repr__\<close>, \<open>__str__\<close>, \<open>__bool__\<close>, \<open>__len__\<close>,
  \<open>__ne__\<close> or \<open>__eq__\<close>: a class attribute of that name holding the bound method.
  Python looks a special method up on the class, so an instance field of such a name is
  ignored. A property of such a name whose getter raises makes the operation raise. A
  method returning \<open>NotImplemented\<close> is not represented.
\<close>

definition special :: "(string \<times> pyval attr) list \<Rightarrow> string \<Rightarrow> exn + pyval option" where
  "special attrs name =
     (case map_of attrs name of
        Some (CAttr f) \<Rightarrow> Inr (Some f)
      | Some (PropRaise e) \<Rightarrow> Inl e
      | _ \<Rightarrow> Inr None)"

text \<open>\<open>repr\<close> of an instance: what \<open>__repr__\<close> returns, which must be a string;
  without \<open>__repr__\<close>, the text of the instance.\<close>

definition repr_obj :: "(string \<times> pyval attr) list \<Rightarrow> string \<Rightarrow> exn + string" where
  "repr_obj attrs r =
     (case special attrs ''__repr__'' of
        Inl e \<Rightarrow> Inl e
      | Inr None \<Rightarrow> Inr r
      | Inr (Some f) \<Rightarrow>
          (case call0 f of
             Inl e \<Rightarrow> Inl e
           | Inr (PStr s) \<Rightarrow> Inr s
           | Inr _ \<Rightarrow> Inl TypeError))"

text \<open>\<open>repr(v)\<close>: the elements of a list, tuple or dictionary are shown by their own
  \<open>repr\<close>.\<close>

fun repr_of :: "pyval \<Rightarrow> exn + string" where
  "repr_of (PList xs) =
     (case collect (map repr_of xs) of
        Inl e \<Rightarrow> Inl e
      | Inr ss \<Rightarrow> Inr (''['' @ join '', '' ss @ '']''))"
| "repr_of (PTuple xs) =
     (case collect (map repr_of xs) of
        Inl e \<Rightarrow> Inl e
      | Inr ss \<Rightarrow> Inr (case ss of [x] \<Rightarrow> ''('' @ x @ '',)'' | _ \<Rightarrow> ''('' @ join '', '' ss @ '')''))"
| "repr_of (PDict a kvs) =
     (case collect (map (\<lambda>kv. case repr_of (snd kv) of
                                 Inl e \<Rightarrow> Inl e
                               | Inr t \<Rightarrow> Inr (repr_str (fst kv) @ '': '' @ t)) kvs) of
        Inl e \<Rightarrow> Inl e
      | Inr ss \<Rightarrow> Inr (''{'' @ join '', '' ss @ ''}''))"
| "repr_of (PObj a r attrs) = repr_obj attrs r"
| "repr_of v = Inr (py_repr v)"

text \<open>\<open>str(v)\<close>: \<open>__str__\<close> when the class defines it, else \<open>repr\<close>.\<close>

definition str_obj :: "(string \<times> pyval attr) list \<Rightarrow> string \<Rightarrow> exn + string" where
  "str_obj attrs r =
     (case special attrs ''__str__'' of
        Inl e \<Rightarrow> Inl e
      | Inr None \<Rightarrow> repr_obj attrs r
      | Inr (Some f) \<Rightarrow>
          (case call0 f of
             Inl e \<Rightarrow> Inl e
           | Inr (PStr s) \<Rightarrow> Inr s
           | Inr _ \<Rightarrow> Inl TypeError))"

definition str_of :: "pyval \<Rightarrow> exn + string" where
  "str_of v = (case v of PStr s \<Rightarrow> Inr s | PObj a r attrs \<Rightarrow> str_obj attrs r | _ \<Rightarrow> repr_of v)"

text \<open>The truth value (\<open>if v:\<close>): \<open>__bool__\<close>, which must return a \<open>bool\<close>; else
  \<open>__len__\<close>, which must return an integer from 0 to \<open>sys.maxsize\<close> (that of a 64-bit
  build); else true.\<close>

definition max_size :: int where
  "max_size = 2 ^ 63 - 1"

definition bool_obj :: "(string \<times> pyval attr) list \<Rightarrow> exn + bool" where
  "bool_obj attrs =
     (case special attrs ''__bool__'' of
        Inl e \<Rightarrow> Inl e
      | Inr (Some f) \<Rightarrow>
          (case call0 f of
             Inl e \<Rightarrow> Inl e
           | Inr (PBool b) \<Rightarrow> Inr b
           | Inr _ \<Rightarrow> Inl TypeError)
      | Inr None \<Rightarrow>
          (case special attrs ''__len__'' of
             Inl e \<Rightarrow> Inl e
           | Inr (Some f) \<Rightarrow>
               (case call0 f of
                  Inl e \<Rightarrow> Inl e
                | Inr (PInt n) \<Rightarrow>
                    (if n < 0 then Inl ValueError
                     else if max_size < n then Inl (OtherError ''OverflowError'')
                     else Inr (n \<noteq> 0))
                | Inr (PBool b) \<Rightarrow> Inr b
                | Inr _ \<Rightarrow> Inl TypeError)
           | Inr None \<Rightarrow> Inr True))"

definition bool_of :: "pyval \<Rightarrow> exn + bool" where
  "bool_of v = (case v of PObj a r attrs \<Rightarrow> bool_obj attrs | _ \<Rightarrow> Inr (truthy v))"

text \<open>\<open>v != ""\<close> as a condition: \<open>__ne__\<close>, else the negation of \<open>__eq__\<close>, else
  true for an instance (no instance is the empty string); the truth value of what the
  method returns is taken.\<close>

definition ne_empty_obj :: "(string \<times> pyval attr) list \<Rightarrow> exn + bool" where
  "ne_empty_obj attrs =
     (case special attrs ''__ne__'' of
        Inl e \<Rightarrow> Inl e
      | Inr (Some f) \<Rightarrow> (case call1 f (PStr []) of Inl e \<Rightarrow> Inl e | Inr res \<Rightarrow> bool_of res)
      | Inr None \<Rightarrow>
          (case special attrs ''__eq__'' of
             Inl e \<Rightarrow> Inl e
           | Inr (Some f) \<Rightarrow>
               (case call1 f (PStr []) of
                  Inl e \<Rightarrow> Inl e
                | Inr res \<Rightarrow> (case bool_of res of Inl e \<Rightarrow> Inl e | Inr b \<Rightarrow> Inr (\<not> b)))
           | Inr None \<Rightarrow> Inr True))"

definition ne_empty_of :: "pyval \<Rightarrow> exn + bool" where
  "ne_empty_of v = (case v of PObj a r attrs \<Rightarrow> ne_empty_obj attrs | _ \<Rightarrow> Inr (v \<noteq> PStr []))"

text \<open>\<open>sanitize_name(v)\<close>, whose first step \<open>str(v)\<close> may raise.\<close>

definition sanitize_name_full :: "pyval \<Rightarrow> exn + string" where
  "sanitize_name_full v =
     (case str_of v of Inl e \<Rightarrow> Inl e | Inr s \<Rightarrow> Inr (sanitize_name (PStr s)))"

subsection \<open>Identifier and name extraction\<close>

text \<open>\<open>return str(v)\<close>\<close>

definition return_str :: "pyval \<Rightarrow> exn + string option" where
  "return_str v = (case str_of v of Inl e \<Rightarrow> Inl e | Inr s \<Rightarrow> Inr (Some s))"

text \<open>\<open>for k in (...): if k in d and d[k] is not None and d[k] != "": return str(d[k])\<close>\<close>

fun scan_top_full :: "(string \<times> pyval) list \<Rightarrow> string list \<Rightarrow> exn + string option" where
  "scan_top_full kvs [] = Inr None"
| "scan_top_full kvs (k # ks) =
     (case map_of kvs k of
        None \<Rightarrow> scan_top_full kvs ks
      | Some v \<Rightarrow>
          (if v = PNone then scan_top_full kvs ks
           else
             (case ne_empty_of v of
                Inl e \<Rightarrow> Inl e
              | Inr b \<Rightarrow> (if b then return_str v else scan_top_full kvs ks))))"

text \<open>\<open>for ik in (...): if sub.get(ik): return str(sub[ik])\<close>\<close>

fun scan_sub_full :: "(string \<times> pyval) list \<Rightarrow> string list \<Rightarrow> exn + string option" where
  "scan_sub_full sub [] = Inr None"
| "scan_sub_full sub (ik # iks) =
     (case map_of sub ik of
        None \<Rightarrow> scan_sub_full sub iks
      | Some v \<Rightarrow>
          (case bool_of v of
             Inl e \<Rightarrow> Inl e
           | Inr b \<Rightarrow> (if b then return_str v else scan_sub_full sub iks)))"

fun scan_nested_full :: "(string \<times> pyval) list \<Rightarrow> string list \<Rightarrow> exn + string option" where
  "scan_nested_full kvs [] = Inr None"
| "scan_nested_full kvs (k # ks) =
     (case map_of kvs k of
        Some (PDict a sub) \<Rightarrow>
          (case scan_sub_full sub nested_id_keys of
             Inl e \<Rightarrow> Inl e
           | Inr (Some r) \<Rightarrow> Inr (Some r)
           | Inr None \<Rightarrow> scan_nested_full kvs ks)
      | _ \<Rightarrow> scan_nested_full kvs ks)"

text \<open>\<open>for k in (...): v = getattr(item, k, None); if v: return str(v)\<close>\<close>

fun scan_attrs_full :: "pyval \<Rightarrow> string list \<Rightarrow> exn + string option" where
  "scan_attrs_full item [] = Inr None"
| "scan_attrs_full item (k # ks) =
     (case getattr_default item k of
        Inl e \<Rightarrow> Inl e
      | Inr v \<Rightarrow>
          (case bool_of v of
             Inl e \<Rightarrow> Inl e
           | Inr b \<Rightarrow> (if b then return_str v else scan_attrs_full item ks)))"

text \<open>The body of a \<open>try\<close> that ends in \<open>if v: return str(v)\<close>, given the outcome of
  the step that produces \<open>v\<close>: a return, or nothing.\<close>

definition return_if_truthy :: "exn + pyval \<Rightarrow> exn + string option" where
  "return_if_truthy step =
     (case step of
        Inl e \<Rightarrow> Inl e
      | Inr v \<Rightarrow>
          (case bool_of v of
             Inl e \<Rightarrow> Inl e
           | Inr b \<Rightarrow> (if b then return_str v else Inr None)))"

text \<open>\<open>try: ... except Exception: pass\<close> around such a body.\<close>

definition swallow :: "exn + 'a option \<Rightarrow> exn + 'a option" where
  "swallow body = (case body of Inl e \<Rightarrow> (if is_Exception e then Inr None else Inl e) | Inr r \<Rightarrow> Inr r)"

fun scan_get_full :: "pyval \<Rightarrow> string list \<Rightarrow> exn + string option" where
  "scan_get_full g [] = Inr None"
| "scan_get_full g (k # ks) =
     (case swallow (return_if_truthy (call1 g (PStr k))) of
        Inl e \<Rightarrow> Inl e
      | Inr (Some r) \<Rightarrow> Inr (Some r)
      | Inr None \<Rightarrow> scan_get_full g ks)"

definition try_index_full :: "pyval \<Rightarrow> string \<Rightarrow> exn + string option" where
  "try_index_full item k = swallow (return_if_truthy (py_index item k))"

definition id_fallbacks_full :: "pyval \<Rightarrow> exn + string option" where
  "id_fallbacks_full item =
     (case scan_attrs_full item id_keys of
        Inl e \<Rightarrow> Inl e
      | Inr (Some r) \<Rightarrow> Inr (Some r)
      | Inr None \<Rightarrow>
     (case getattr_default item ''get'' of
        Inl e \<Rightarrow> Inl e
      | Inr g \<Rightarrow>
     (case (if is_callable g then scan_get_full g nested_id_keys else Inr None) of
        Inl e \<Rightarrow> Inl e
      | Inr (Some r) \<Rightarrow> Inr (Some r)
      | Inr None \<Rightarrow>
     (case try_index_full item ''jpro_id'' of
        Inl e \<Rightarrow> Inl e
      | Inr (Some r) \<Rightarrow> Inr (Some r)
      | Inr None \<Rightarrow> try_index_full item ''id''))))"

definition extract_id_any_full :: "json_loads \<Rightarrow> pyval \<Rightarrow> exn + string option" where
  "extract_id_any_full loads item =
     (case obj_to_dict_deep loads item 3 of
        Inl e \<Rightarrow> Inl e
      | Inr (Some (PDict a kvs)) \<Rightarrow>
          (case scan_top_full kvs id_keys of
             Inl e \<Rightarrow> Inl e
           | Inr (Some r) \<Rightarrow> Inr (Some r)
           | Inr None \<Rightarrow>
               (case scan_nested_full kvs nested_keys of
                  Inl e \<Rightarrow> Inl e
                | Inr (Some r) \<Rightarrow> Inr (Some r)
                | Inr None \<Rightarrow> id_fallbacks_full item))
      | Inr _ \<Rightarrow> id_fallbacks_full item)"

text \<open>\<open>if v: return sanitize_name(v)\<close>\<close>

definition return_name_if_truthy :: "pyval \<Rightarrow> exn + string option" where
  "return_name_if_truthy v =
     (case bool_of v of
        Inl e \<Rightarrow> Inl e
      | Inr b \<Rightarrow>
          (if b then (case sanitize_name_full v of Inl e \<Rightarrow> Inl e | Inr s \<Rightarrow> Inr (Some s))
           else Inr None))"

fun scan_names_full :: "(string \<times> pyval) list \<Rightarrow> string list \<Rightarrow> exn + string option" where
  "scan_names_full kvs [] = Inr None"
| "scan_names_full kvs (k # ks) =
     (case map_of kvs k of
        None \<Rightarrow> scan_names_full kvs ks
      | Some v \<Rightarrow>
          (case return_name_if_truthy v of
             Inl e \<Rightarrow> Inl e
           | Inr (Some r) \<Rightarrow> Inr (Some r)
           | Inr None \<Rightarrow> scan_names_full kvs ks))"

fun scan_nested_names_full :: "(string \<times> pyval) list \<Rightarrow> string list \<Rightarrow> exn + string option" where
  "scan_nested_names_full kvs [] = Inr None"
| "scan_nested_names_full kvs (k # ks) =
     (case map_of kvs k of
        Some (PDict a sub) \<Rightarrow>
          (case map_of sub ''name'' of
             None \<Rightarrow> scan_nested_names_full kvs ks
           | Some v \<Rightarrow>
               (case return_name_if_truthy v of
                  Inl e \<Rightarrow> Inl e
                | Inr (Some r) \<Rightarrow> Inr (Some r)
                | Inr None \<Rightarrow> scan_nested_names_full kvs ks))
      | _ \<Rightarrow> scan_nested_names_full kvs ks)"

fun scan_name_attrs_full :: "pyval \<Rightarrow> string list \<Rightarrow> exn + string option" where
  "scan_name_attrs_full item [] = Inr None"
| "scan_name_attrs_full item (k # ks) =
     (case getattr_default item k of
        Inl e \<Rightarrow> Inl e
      | Inr v \<Rightarrow>
          (case return_name_if_truthy v of
             Inl e \<Rightarrow> Inl e
           | Inr (Some r) \<Rightarrow> Inr (Some r)
           | Inr None \<Rightarrow> scan_name_attrs_full item ks))"

definition name_fallbacks_full :: "pyval \<Rightarrow> string \<Rightarrow> exn + string" where
  "name_fallbacks_full item fallback_id =
     (case scan_name_attrs_full item name_attrs of
        Inl e \<Rightarrow> Inl e
      | Inr (Some r) \<Rightarrow> Inr r
      | Inr None \<Rightarrow> Inr (sanitize_name (PStr (''id_'' @ fallback_id))))"

definition extract_name_any_full :: "json_loads \<Rightarrow> pyval \<Rightarrow> string \<Rightarrow> exn + string" where
  "extract_name_any_full loads item fallback_id =
     (case obj_to_dict_deep loads item 3 of
        Inl e \<Rightarrow> Inl e
      | Inr (Some (PDict a kvs)) \<Rightarrow>
          (case scan_names_full kvs name_keys of
             Inl e \<Rightarrow> Inl e
           | Inr (Some r) \<Rightarrow> Inr r
           | Inr None \<Rightarrow>
               (case scan_nested_names_full kvs nested_keys of
                  Inl e \<Rightarrow> Inl e
                | Inr (Some r) \<Rightarrow> Inr r
                | Inr None \<Rightarrow> name_fallbacks_full item fallback_id))
      | Inr _ \<Rightarrow> name_fallbacks_full item fallback_id)"

subsection \<open>The run\<close>

definition detect_tag_full :: "pyval \<Rightarrow> exn + string" where
  "detect_tag_full res =
     (case getattr_default res ''resource_type'' of
        Inl e \<Rightarrow> Inl e
      | Inr t \<Rightarrow>
          (case (if t = PNone then getattr_default res ''provider_tag'' else Inr t) of
             Inl e \<Rightarrow> Inl e
           | Inr tag \<Rightarrow>
               (case str_of tag of
                  Inl e \<Rightarrow> Inl e
                | Inr tag_str \<Rightarrow>
                    (case re_search tag_tokens tag_str of
                       Some m \<Rightarrow> Inr m
                     | None \<Rightarrow> Inr tag_str))))"

text \<open>What the operations on the sample file and the final \<open>print\<close> do: \<open>None\<close> when
  the operation succeeds, else the exception it raises. \<open>open\<close>, \<open>close\<close> and
  \<open>print\<close> run at most once in a pass; \<open>write\<close> runs once for each line attempted,
  and \<open>write_error fs n\<close> is what the attempt number \<open>n\<close> (from 0) does.\<close>

record files =
  open_error :: "exn option"
  write_error :: "nat \<Rightarrow> exn option"
  close_error :: "exn option"
  print_error :: "exn option"

text \<open>The state of a pass, with the number of writes attempted so far.\<close>

record run_full = run +
  attempts :: nat

definition sample_line_full :: "json_loads \<Rightarrow> pyval \<Rightarrow> exn + string" where
  "sample_line_full loads item =
     (case obj_to_dict_deep loads item 3 of
        Inl e \<Rightarrow> Inl e
      | Inr (Some v) \<Rightarrow> (case json_dumps v of Inl e \<Rightarrow> Inl e | Inr t \<Rightarrow> Inr (t @ [CHR 0x0A]))
      | Inr None \<Rightarrow>
          (case repr_of item of
             Inl e \<Rightarrow> Inl e
           | Inr r \<Rightarrow>
               (case json_dumps (PDict None [(''repr'', PStr r)]) of
                  Inl e \<Rightarrow> Inl e
                | Inr t \<Rightarrow> Inr (t @ [CHR 0x0A]))))"

text \<open>The guarded block that writes one line of the sample: the line is computed, then
  written; \<open>dumped\<close> is advanced only when both succeeded, and an \<open>Exception\<close> from
  either is swallowed.\<close>

definition dump_item_full ::
    "files \<Rightarrow> json_loads \<Rightarrow> bool \<Rightarrow> run_full \<Rightarrow> pyval \<Rightarrow> exn + run_full" where
  "dump_item_full fs loads dumper st item =
     (if dumper \<and> dumped st < dump_cap then
        (case sample_line_full loads item of
           Inl e \<Rightarrow> (if is_Exception e then Inr st else Inl e)
         | Inr line \<Rightarrow>
             (case write_error fs (attempts st) of
                Some e \<Rightarrow> (if is_Exception e then Inr (st\<lparr>attempts := attempts st + 1\<rparr>) else Inl e)
              | None \<Rightarrow>
                  Inr (st\<lparr>sample := sample st @ [line], dumped := dumped st + 1,
                          attempts := attempts st + 1\<rparr>)))
      else Inr st)"

definition item_entry_full :: "json_loads \<Rightarrow> string \<Rightarrow> string \<Rightarrow> pyval \<Rightarrow> exn + string" where
  "item_entry_full loads tf_type tag item =
     (case extract_id_any_full loads item of
        Inl e \<Rightarrow> Inl e
      | Inr rid \<Rightarrow>
          (case (case rid of None \<Rightarrow> None | Some r \<Rightarrow> (if r = [] then None else Some r)) of
             None \<Rightarrow>
               (case repr_of item of
                  Inl e \<Rightarrow> Inl e
                | Inr shown \<Rightarrow> Inr (''# Could not extract id for item in '' @ tag @ '': '' @ shown))
           | Some r \<Rightarrow>
               (case extract_name_any_full loads item r of
                  Inl e \<Rightarrow> Inl e
                | Inr local \<Rightarrow> Inr (import_block r tf_type local))))"

fun process_items_full ::
    "files \<Rightarrow> json_loads \<Rightarrow> bool \<Rightarrow> string \<Rightarrow> string \<Rightarrow> run_full \<Rightarrow> pyval list \<Rightarrow> exn + run_full"
    where
  "process_items_full fs loads dumper tf_type tag st [] = Inr st"
| "process_items_full fs loads dumper tf_type tag st (item # items) =
     (case dump_item_full fs loads dumper st item of
        Inl e \<Rightarrow> Inl e
      | Inr st1 \<Rightarrow>
          (case item_entry_full loads tf_type tag item of
             Inl e \<Rightarrow> Inl e
           | Inr b \<Rightarrow>
               process_items_full fs loads dumper tf_type tag (st1\<lparr>blocks := blocks st1 @ [b]\<rparr>) items))"

definition process_resource_full ::
    "files \<Rightarrow> json_loads \<Rightarrow> bool \<Rightarrow> run_full \<Rightarrow> pyval \<Rightarrow> exn + run_full" where
  "process_resource_full fs loads dumper st res =
     (case detect_tag_full res of
        Inl e \<Rightarrow> Inl e
      | Inr tag \<Rightarrow>
          (case classify tag of
             None \<Rightarrow> Inr (st\<lparr>blocks := blocks st @ [''# Skipping unsupported resource tag: '' @ tag]\<rparr>)
           | Some tf_type \<Rightarrow>
               (case iter_items_from_resource res of
                  Inl e \<Rightarrow> Inl e
                | Inr items \<Rightarrow>
                    (if items = [] then
                       Inr (st\<lparr>blocks := blocks st @ [''# No items found for '' @ tag]\<rparr>)
                     else process_items_full fs loads dumper tf_type tag st items))))"

fun process_resources_full ::
    "files \<Rightarrow> json_loads \<Rightarrow> bool \<Rightarrow> run_full \<Rightarrow> pyval list \<Rightarrow> exn + run_full" where
  "process_resources_full fs loads dumper st [] = Inr st"
| "process_resources_full fs loads dumper st (res # rest) =
     (case process_resource_full fs loads dumper st res of
        Inl e \<Rightarrow> Inl e
      | Inr st1 \<Rightarrow> process_resources_full fs loads dumper st1 rest)"

text \<open>\<open>compose_import_hcl\<close> with \<open>open\<close>, \<open>close\<close> and the final \<open>print\<close>, which
  run only when a non-empty \<open>dump_path\<close> is given and stand outside any \<open>try\<close>.\<close>

definition compose_import_hcl_full ::
    "files \<Rightarrow> json_loads \<Rightarrow> pyval list \<Rightarrow> string option \<Rightarrow> exn + string \<times> string list option" where
  "compose_import_hcl_full fs loads resources dump_path =
     (let dumper = (dump_path \<noteq> None \<and> dump_path \<noteq> Some [])
      in case (if dumper then open_error fs else None) of
           Some e \<Rightarrow> Inl e
         | None \<Rightarrow>
      (case process_resources_full fs loads dumper
              \<lparr>blocks = [], dumped = 0, sample = [], attempts = 0\<rparr> resources of
           Inl e \<Rightarrow> Inl e
         | Inr st \<Rightarrow>
      (case (if dumper then close_error fs else None) of
           Some e \<Rightarrow> Inl e
         | None \<Rightarrow>
      (case (if dumper then print_error fs else None) of
           Some e \<Rightarrow> Inl e
         | None \<Rightarrow> Inr (assemble (blocks st), if dumper then Some (sample st) else None)))))"

section \<open>Auxiliary notions for the statements\<close>

text \<open>A \<open>json.loads\<close> that rejects every text, for runs in which no record offers a
  \<open>json\<close> method.\<close>

definition json_reject :: json_loads where
  "json_reject s = Inl ValueError"

text \<open>The two resource groups of the end-to-end example, as resource objects: the tag is
  the attribute \<open>resource_type\<close>, the fetched items are the list under \<open>data\<close>.\<close>

definition example_groups :: "pyval list" where
  "example_groups =
     [PObj 1 ''<ScriptResource>''
        [(''resource_type'', IField (PStr ''SCRIPT'')),
         (''data'', IField (PList [PDict (Some 3) [(''id'', PStr ''1''), (''name'', PStr ''My Script!'')]]))],
      PObj 2 ''<CategoryResource>''
        [(''resource_type'', IField (PStr ''CATEGORY'')),
         (''data'', IField (PList []))]]"

text \<open>A value of a listable field that is no item sequence: absent (\<open>None\<close>), a string,
  bytes, or a dictionary.\<close>

definition not_a_sequence :: "pyval \<Rightarrow> bool" where
  "not_a_sequence v =
     (case v of PNone \<Rightarrow> True | PStr s \<Rightarrow> True | PBytes s \<Rightarrow> True | PDict a kvs \<Rightarrow> True | _ \<Rightarrow> False)"

text \<open>The items the loop \<open>for item in items\<close> visits in one run: those of the groups
  with a recognised tag, in order.\<close>

definition group_items :: "pyval \<Rightarrow> pyval list" where
  "group_items res =
     (case detect_tag res of
        Inl e \<Rightarrow> []
      | Inr tag \<Rightarrow>
          (case classify tag of
             None \<Rightarrow> []
           | Some tf_type \<Rightarrow> (case iter_items_from_resource res of Inl e \<Rightarrow> [] | Inr items \<Rightarrow> items)))"

definition sampled_items :: "pyval list \<Rightarrow> pyval list" where
  "sampled_items resources = concat (map group_items resources)"



text \<open>The sample writes of the loop alone: \<open>dump_item\<close> along a list of items, an
  item whose sample raised leaving the state as it was.\<close>

fun dump_all :: "json_loads \<Rightarrow> bool \<Rightarrow> run \<Rightarrow> pyval list \<Rightarrow> run" where
  "dump_all loads dumper st [] = st"
| "dump_all loads dumper st (item # items) =
     dump_all loads dumper (case dump_item loads dumper st item of Inl e \<Rightarrow> st | Inr st1 \<Rightarrow> st1) items"

text \<open>The output as the specification words it. The entries of one group: one diagnostic
  for an unrecognised tag, one for a group without items, else one entry per item in the
  order of the items.\<close>

definition spec_group_entries :: "json_loads \<Rightarrow> pyval \<Rightarrow> exn + string list" where
  "spec_group_entries loads res =
     (case detect_tag res of
        Inl e \<Rightarrow> Inl e
      | Inr tag \<Rightarrow>
          (case classify tag of
             None \<Rightarrow> Inr [''# Skipping unsupported resource tag: '' @ tag]
           | Some tf_type \<Rightarrow>
               (case iter_items_from_resource res of
                  Inl e \<Rightarrow> Inl e
                | Inr items \<Rightarrow>
                    (if items = [] then Inr [''# No items found for '' @ tag]
                     else collect (map (item_entry loads tf_type tag) items)))))"

text \<open>Consecutive entries separated by exactly one blank line, and a single trailing
  newline if and only if there is an entry.\<close>

fun blank_line_separated :: "string list \<Rightarrow> string" where
  "blank_line_separated [] = []"
| "blank_line_separated [b] = b"
| "blank_line_separated (b # c # bs) = b @ [CHR 0x0A] @ [CHR 0x0A] @ blank_line_separated (c # bs)"

definition spec_output :: "string list \<Rightarrow> string" where
  "spec_output entries = (if entries = [] then [] else blank_line_separated entries @ [CHR 0x0A])"

text \<open>Inputs for the examples: a group with an unrecognised tag; a record that is a plain
  JSON object; a record that is a wrapper object whose fields include a handle on the
  client, which \<open>json.dumps\<close> cannot serialise; a resource object with a tag and its
  items; two runs of 50 items in two groups.\<close>

definition unknown_group :: pyval where
  "unknown_group = PObj 4 ''<UnknownResource>''
     [(''resource_type'', IField (PStr ''UNKNOWN_TYPE'')),
      (''data'', IField (PList [PDict (Some 5) [(''id'', PStr ''9''), (''name'', PStr ''x'')]]))]"

definition plain_item :: pyval where
  "plain_item = PDict None [(''id'', PInt 7), (''name'', PStr ''Printer Setup'')]"


definition resource_of :: "nat \<Rightarrow> string \<Rightarrow> pyval list \<Rightarrow> pyval" where
  "resource_of a tag items =
     PObj a ''<Resource>'' [(''resource_type'', IField (PStr tag)), (''data'', IField (PList items))]"



text \<open>A value is benign when, anywhere inside it,
  \<^item> no attribute read raises (a getter may raise \<open>AttributeError\<close>, which \<open>getattr\<close>
    turns into the default),
  \<^item> every call that raises does so with an exception deriving from \<open>Exception\<close>,
  \<^item> \<open>repr\<close>, \<open>str\<close>, the truth value and the comparison with \<open>""\<close> of an
    instance raise nothing, and
  \<^item> the \<open>keys\<close> method of an instance, where it has one that returns an iterable,
    enumerates strings (the field names of a field map).\<close>

definition is_str :: "pyval \<Rightarrow> bool" where
  "is_str v = (case v of PStr s \<Rightarrow> True | _ \<Rightarrow> False)"

definition string_keys :: "(string \<times> pyval attr) list \<Rightarrow> bool" where
  "string_keys attrs =
     (case map_of attrs ''keys'' of
        None \<Rightarrow> True
      | Some (PropRaise e) \<Rightarrow> True
      | Some (IField f) \<Rightarrow>
          (case call0 f of
             Inl e \<Rightarrow> True
           | Inr kv \<Rightarrow> (case py_list kv of Inl e \<Rightarrow> True | Inr ks \<Rightarrow> list_all is_str ks))
      | Some (CAttr f) \<Rightarrow>
          (case call0 f of
             Inl e \<Rightarrow> True
           | Inr kv \<Rightarrow> (case py_list kv of Inl e \<Rightarrow> True | Inr ks \<Rightarrow> list_all is_str ks)))"

definition quiet_specials :: "(string \<times> pyval attr) list \<Rightarrow> string \<Rightarrow> bool" where
  "quiet_specials attrs r =
     (\<not> isl (repr_obj attrs r) \<and> \<not> isl (str_obj attrs r)
      \<and> \<not> isl (bool_obj attrs) \<and> \<not> isl (ne_empty_obj attrs))"

fun benign :: "pyval \<Rightarrow> bool" where
  "benign (PList xs) = list_all benign xs"
| "benign (PTuple xs) = list_all benign xs"
| "benign (PDict a kvs) = list_all (\<lambda>kv. benign (snd kv)) kvs"
| "benign (PFun0 r out) = (case out of Inl e \<Rightarrow> is_Exception e | Inr v \<Rightarrow> benign v)"
| "benign (PFun1 r tbl dflt) =
     (list_all (\<lambda>ko. case snd ko of Inl e \<Rightarrow> is_Exception e | Inr v \<Rightarrow> benign v) tbl
      \<and> (case dflt of Inl e \<Rightarrow> is_Exception e | Inr v \<Rightarrow> benign v))"
| "benign (PObj a r attrs) =
     (list_all (\<lambda>ka. case snd ka of IField v \<Rightarrow> benign v | CAttr v \<Rightarrow> benign v
                      | PropRaise e \<Rightarrow> e = AttributeError) attrs
      \<and> quiet_specials attrs r \<and> string_keys attrs)"
| "benign _ = True"

text \<open>\<open>json.loads\<close> raises nothing but exceptions deriving from \<open>Exception\<close>, and what
  it returns is benign (it is built from dictionaries, lists, strings and numbers).\<close>

definition loads_safe :: "json_loads \<Rightarrow> bool" where
  "loads_safe loads = (\<forall>s. case loads s of Inl e \<Rightarrow> is_Exception e | Inr v \<Rightarrow> benign v)"

text \<open>A result of the prober that is no exception and, when a dictionary, benign.\<close>

definition good_probe :: "exn + pyval option \<Rightarrow> bool" where
  "good_probe r = (case r of Inl e \<Rightarrow> False | Inr None \<Rightarrow> True | Inr (Some d) \<Rightarrow> benign d)"

text \<open>\<open>open\<close>, \<open>close\<close> and the final \<open>print\<close> succeed; a \<open>write\<close> that
  fails raises an exception deriving from \<open>Exception\<close>, which the \<open>try\<close> around it
  catches.\<close>

definition files_ok :: "files \<Rightarrow> bool" where
  "files_ok fs =
     (open_error fs = None \<and> close_error fs = None \<and> print_error fs = None
      \<and> (\<forall>n. case write_error fs n of None \<Rightarrow> True | Some e \<Rightarrow> is_Exception e))"












definition raising_record :: pyval where
  "raising_record = PObj 20 ''<LazyItem>'' [(''data'', PropRaise ValueError)]"

definition failing_method_record :: pyval where
  "failing_method_record = PObj 21 ''<Item>''
     [(''to_dict'', CAttr (PFun0 ''<bound method Item.to_dict>'' (Inl (OtherError ''RuntimeError'')))),
      (''id'', IField (PInt 5))]"

text \<open>Further values for the examples: a record without identifier whose \<open>__repr__\<close>
  raises \<open>RuntimeError\<close>; file operations that all succeed; a sample path in a directory
  that does not exist, where \<open>open\<close> raises \<open>FileNotFoundError\<close>; a full disk, where
  every second \<open>write\<close> raises \<open>OSError\<close>.\<close>

definition unprintable_record :: pyval where
  "unprintable_record = PObj 22 ''<Opaque>''
     [(''__repr__'', CAttr (PFun0 ''<bound method Opaque.__repr__>'' (Inl (OtherError ''RuntimeError''))))]"

definition working_files :: files where
  "working_files =
     \<lparr>open_error = None, write_error = (\<lambda>n. None), close_error = None, print_error = None\<rparr>"

definition missing_directory :: files where
  "missing_directory = working_files\<lparr>open_error := Some (OtherError ''FileNotFoundError'')\<rparr>"

definition full_disk :: files where
  "full_disk = working_files\<lparr>write_error := (\<lambda>n. if even n then None else Some (OtherError ''OSError''))\<rparr>"

section \<open>Properties of the sanitizer\<close>

lemma re_sub_runs_in_class: "list_all in_class (re_sub_runs s)"
  by (induction s rule: re_sub_runs.induct) (auto simp: in_class_def code_def)

lemma strip_where_subset: "set (strip_where p s) \<subseteq> set s"
proof -
  have "set (dropWhile p (rev (dropWhile p s))) \<subseteq> set (rev (dropWhile p s))"
    by (rule set_dropWhileD [THEN subsetI])
  also have "\<dots> \<subseteq> set s"
    using set_dropWhileD [of _ p s] by auto
  finally show ?thesis by (simp add: strip_where_def)
qed

lemma strip_where_hd: "strip_where p s \<noteq> [] \<Longrightarrow> \<not> p (hd (strip_where p s))"
proof -
  assume ne: "strip_where p s \<noteq> []"
  define t where "t = dropWhile p s"
  have tne: "t \<noteq> []"
  proof
    assume "t = []"
    then have "dropWhile p s = []" by (simp only: t_def)
    then have "strip_where p s = []"
      by (simp only: strip_where_def rev.simps dropWhile.simps)
    with ne show False by simp
  qed
  have h: "\<not> p (hd t)"
    using tne hd_dropWhile [of p s] by (simp add: t_def)
  have last_in: "dropWhile p (rev t) \<noteq> []"
  proof
    assume "dropWhile p (rev t) = []"
    then have "\<forall>x \<in> set (rev t). p x" by (simp add: dropWhile_eq_Nil_conv)
    with tne h show False by (cases t) auto
  qed
  obtain us where us: "rev t = us @ dropWhile p (rev t)"
    by (metis takeWhile_dropWhile_id)
  have "last (dropWhile p (rev t)) = last (rev t)"
    using us last_in by (metis last_appendR)
  then have "hd (rev (dropWhile p (rev t))) = hd t"
    using last_in tne by (simp add: hd_rev last_rev)
  with h show ?thesis by (simp add: strip_where_def t_def)
qed

text \<open>C2. For every input (any value, so in particular every string), the result of
  \<open>sanitize_name\<close> is not empty and matches \<open>^[a-z_][a-z0-9_]*$\<close>: the function
  always returns, and what it returns is a valid local identifier.\<close>

theorem sanitize_name_total: "sanitize_name v \<noteq> [] \<and> matches_ident (sanitize_name v)"
proof -
  define s where "s = strip_where (\<lambda>c. c = CHR ''_'') (re_sub_runs (py_lower (py_strip (py_str v))))"
  have cls: "list_all in_class s"
    using re_sub_runs_in_class [of "py_lower (py_strip (py_str v))"]
      strip_where_subset [of "\<lambda>c. c = CHR ''_''" "re_sub_runs (py_lower (py_strip (py_str v)))"]
    unfolding s_def list_all_iff by blast
  have r: "sanitize_name v = (if s = [] \<or> is_digit (hd s) then (if s \<noteq> [] then ''r_'' @ s else ''r'') else s)"
    by (simp add: sanitize_name_def s_def Let_def)
  show ?thesis
  proof (cases "s = []")
    case True
    then show ?thesis by (simp add: r matches_ident_def ident_start_def code_def)
  next
    case False
    then obtain c cs where ccs: "s = c # cs" by (cases s) auto
    have nus: "c \<noteq> CHR ''_''"
      using strip_where_hd [of "\<lambda>c. c = CHR ''_''" "re_sub_runs (py_lower (py_strip (py_str v)))"] False ccs
      unfolding s_def by auto
    have cc: "in_class c" and ccs': "list_all in_class cs" using cls ccs by auto
    show ?thesis
    proof (cases "is_digit c")
      case True
      then show ?thesis
        using cc ccs' ccs by (simp add: r matches_ident_def ident_start_def in_class_def code_def)
    next
      case nd: False
      have "code c \<noteq> 95"
      proof
        assume "code c = 95"
        then have "of_char c = (of_char (CHR ''_'') :: nat)" by (simp add: code_def)
        then have "c = CHR ''_''" by (metis char_of_char)
        with nus show False by simp
      qed
      then have "ident_start c"
        using cc nd by (auto simp: ident_start_def in_class_def is_digit_def Let_def)
      then show ?thesis using ccs ccs' nd by (simp add: r matches_ident_def)
    qed
  qed
qed

section \<open>The end-to-end example\<close>

text \<open>C1, as stated, fails: for the two groups of the example the compiler does not return
  the text whose local name is \<open>my_script_\<close>.\<close>

theorem example_output_counterexample:
  "compose_import_hcl json_reject example_groups None \<noteq>
   Inr (''import {'' @ [CHR 0x0A] @ ''  id = '' @ [CHR 0x22] @ ''1'' @ [CHR 0x22] @ [CHR 0x0A] @
        ''  to = jamfpro_script.my_script_'' @ [CHR 0x0A] @ ''}'' @ [CHR 0x0A] @ [CHR 0x0A] @
        ''# No items found for CATEGORY'' @ [CHR 0x0A], None)"
  by code_simp

text \<open>C1, amended. For the two groups of the example the compiler returns exactly one
  import block, one blank line, the diagnostic \<open># No items found for CATEGORY\<close> and a
  trailing newline; the local name is \<open>my_script\<close>: the underscore that replaces the
  trailing \<open>!\<close> is stripped again by \<open>strip("_")\<close>.\<close>

theorem example_output:
  "compose_import_hcl loads example_groups None =
   Inr (''import {'' @ [CHR 0x0A] @ ''  id = '' @ [CHR 0x22] @ ''1'' @ [CHR 0x22] @ [CHR 0x0A] @
        ''  to = jamfpro_script.my_script'' @ [CHR 0x0A] @ ''}'' @ [CHR 0x0A] @ [CHR 0x0A] @
        ''# No items found for CATEGORY'' @ [CHR 0x0A], None)"
  by code_simp

section \<open>Properties of the shape prober\<close>

text \<open>C9. The prober is the identity on plain mappings: for every dictionary \<open>m\<close> and every
  \<open>max_depth \<ge> 0\<close> it returns \<open>m\<close> itself, with the identity and the entries it came
  with; no other strategy is applied.\<close>

theorem probe_dict_identity:
  "0 \<le> max_depth \<Longrightarrow> obj_to_dict_deep loads (PDict a kvs) max_depth = Inr (Some (PDict a kvs))"
  by (simp add: obj_to_dict_deep_def seen_hit_def split: option.splits)

theorem probe_dict_identity_witness:
  "obj_to_dict_deep json_reject (PDict (Some 5) [(''id'', PInt 7)]) 0
     = Inr (Some (PDict (Some 5) [(''id'', PInt 7)]))"
  using probe_dict_identity [of 0 json_reject "Some 5" "[(''id'', PInt 7)]"] by simp

section \<open>Properties of the identifier extractor\<close>



section \<open>Properties of the item accessor\<close>

lemma items_direct_not_seq: "not_a_sequence v \<Longrightarrow> items_direct v = Inr None"
  by (cases v) (auto simp: not_a_sequence_def items_direct_def)

lemma not_seq_not_callable: "not_a_sequence v \<Longrightarrow> \<not> is_callable v"
  by (cases v) (auto simp: not_a_sequence_def)

lemma items_from_attrs_none:
  "\<forall>k \<in> set ks. \<exists>v. getattr_default res k = Inr v \<and> not_a_sequence v \<Longrightarrow>
   items_from_attrs res ks = Inr None"
  by (induction ks) (auto simp: items_direct_not_seq not_seq_not_callable)

lemma items_from_getters_none:
  "\<forall>k \<in> set ks. \<exists>f. getattr_default res k = Inr f \<and> \<not> is_callable f \<Longrightarrow>
   items_from_getters res ks = Inr None"
  by (induction ks) auto

text \<open>C10. A string, bytes or dictionary held by a listable field is never taken as the
  item sequence: for every resource each of whose listable fields (\<open>data\<close>, \<open>_data\<close>,
  \<open>dataset\<close>, \<open>items\<close>, \<open>all\<close>) is absent or holds a string, bytes or a dictionary,
  and none of whose getter names (\<open>get_all\<close>, \<open>to_list\<close>, \<open>list\<close>, \<open>all\<close>) is
  callable, \<open>iter_items_from_resource\<close> returns the empty list.\<close>

theorem string_field_is_no_item_sequence:
  assumes "\<forall>k \<in> set cand_attrs. \<exists>v. getattr_default res k = Inr v \<and> not_a_sequence v"
    and "\<forall>k \<in> set getter_methods. \<exists>f. getattr_default res k = Inr f \<and> \<not> is_callable f"
  shows "iter_items_from_resource res = Inr []"
  using assms by (simp add: iter_items_from_resource_def items_from_attrs_none items_from_getters_none)

theorem string_field_is_no_item_sequence_witness:
  "iter_items_from_resource
     (PObj 1 ''<ScriptResource>''
        [(''resource_type'', IField (PStr ''SCRIPT'')), (''data'', IField (PStr ''abc''))]) = Inr []"
  using string_field_is_no_item_sequence
    [of "PObj 1 ''<ScriptResource>''
        [(''resource_type'', IField (PStr ''SCRIPT'')), (''data'', IField (PStr ''abc''))]"]
  by (simp add: cand_attrs_def getter_methods_def getattr_default_def not_a_sequence_def)

section \<open>Properties of the import compiler\<close>

lemma collect_Inl: "collect rs = Inl e \<Longrightarrow> Inl e \<in> set rs"
  by (induction rs) (auto split: sum.splits)

lemma json_dumps_error: "json_dumps v = Inl e \<Longrightarrow> e = TypeError"
proof (induction v arbitrary: e)
  case (PList xs)
  then show ?case by (auto split: sum.splits dest!: collect_Inl)
next
  case (PTuple xs)
  then show ?case by (auto split: sum.splits dest!: collect_Inl)
next
  case (PDict a kvs)
  from PDict.prems have "Inl e \<in> set (map (\<lambda>kv. case json_dumps (snd kv) of
                                 Inl e \<Rightarrow> Inl e
                               | Inr t \<Rightarrow> Inr (json_str (fst kv) @ '': '' @ t)) kvs)"
    by (auto split: sum.splits dest!: collect_Inl)
  then obtain kv where kv: "kv \<in> set kvs" "json_dumps (snd kv) = Inl e"
    by (auto split: sum.splits)
  moreover have "snd kv \<in> Basic_BNFs.snds kv" by (rule snds.intros)
  ultimately show ?case using PDict.IH [of kv "snd kv" e] by blast
qed auto

lemma sample_line_fatal:
  "sample_line loads item = Inl e \<Longrightarrow> \<not> is_Exception e \<Longrightarrow> obj_to_dict_deep loads item 3 = Inl e"
  by (auto simp: sample_line_def is_Exception_def split: sum.splits dest: json_dumps_error)

lemma probe_fatal_entry:
  "obj_to_dict_deep loads item 3 = Inl e \<Longrightarrow> item_entry loads tf tag item = Inl e"
  by (simp add: item_entry_def extract_id_any_def)

lemma dump_item_fatal:
  "dump_item loads dumper st item = Inl e \<Longrightarrow> item_entry loads tf tag item = Inl e"
  by (auto simp: dump_item_def split: if_splits sum.splits intro: probe_fatal_entry sample_line_fatal)

lemma dump_item_blocks:
  "dump_item loads dumper (st\<lparr>blocks := bs\<rparr>) item
     = map_sum id (\<lambda>s. s\<lparr>blocks := bs\<rparr>) (dump_item loads dumper st item)"
  by (auto simp: dump_item_def split: sum.splits)

lemma dump_all_blocks:
  "dump_all loads dumper (st\<lparr>blocks := bs\<rparr>) items = (dump_all loads dumper st items)\<lparr>blocks := bs\<rparr>"
proof (induction items arbitrary: st)
  case Nil
  then show ?case by simp
next
  case (Cons item items)
  show ?case
    by (cases "dump_item loads dumper st item") (simp_all add: dump_item_blocks Cons.IH)
qed

lemma dump_item_keeps_blocks: "dump_item loads dumper st item = Inr st1 \<Longrightarrow> blocks st1 = blocks st"
  by (auto simp: dump_item_def split: if_splits sum.splits)

lemma dump_all_keeps_blocks: "blocks (dump_all loads dumper st items) = blocks st"
  by (induction items arbitrary: st) (auto split: sum.splits dest: dump_item_keeps_blocks)

lemma dump_all_append:
  "dump_all loads dumper st (xs @ ys) = dump_all loads dumper (dump_all loads dumper st xs) ys"
  by (induction xs arbitrary: st) auto

lemma process_items_char:
  "process_items loads dumper tf tag st items =
     (case collect (map (item_entry loads tf tag) items) of
        Inl e \<Rightarrow> Inl e
      | Inr es \<Rightarrow> Inr ((dump_all loads dumper st items)\<lparr>blocks := blocks st @ es\<rparr>))"
proof (induction items arbitrary: st)
  case Nil
  then show ?case by simp
next
  case (Cons item items)
  show ?case
  proof (cases "dump_item loads dumper st item")
    case (Inl e)
    then show ?thesis using dump_item_fatal [OF Inl, of tf tag] by simp
  next
    case (Inr st1)
    note d = this
    show ?thesis
    proof (cases "item_entry loads tf tag item")
      case (Inl e)
      then show ?thesis using d by simp
    next
      case (Inr b)
      have b1: "blocks st1 = blocks st" using d by (rule dump_item_keeps_blocks)
      show ?thesis
        using d Inr Cons.IH [of "st1\<lparr>blocks := blocks st1 @ [b]\<rparr>"]
        by (auto simp: dump_all_blocks b1 split: sum.splits)
    qed
  qed
qed

lemma process_resource_char:
  "process_resource loads dumper st res =
     (case spec_group_entries loads res of
        Inl e \<Rightarrow> Inl e
      | Inr es \<Rightarrow> Inr ((dump_all loads dumper st (group_items res))\<lparr>blocks := blocks st @ es\<rparr>))"
  by (auto simp: process_resource_def spec_group_entries_def group_items_def process_items_char
      split: sum.splits option.splits)

lemma process_resources_char:
  "process_resources loads dumper st rs =
     (case collect (map (spec_group_entries loads) rs) of
        Inl e \<Rightarrow> Inl e
      | Inr ess \<Rightarrow>
          Inr ((dump_all loads dumper st (sampled_items rs))\<lparr>blocks := blocks st @ concat ess\<rparr>))"
proof (induction rs arbitrary: st)
  case Nil
  then show ?case by (simp add: sampled_items_def)
next
  case (Cons res rs)
  show ?case
  proof (cases "spec_group_entries loads res")
    case (Inl e)
    then show ?thesis by (simp add: process_resource_char)
  next
    case (Inr es)
    then show ?thesis
      using Cons.IH [of "(dump_all loads dumper st (group_items res))\<lparr>blocks := blocks st @ es\<rparr>"]
      by (auto simp: process_resource_char sampled_items_def dump_all_append dump_all_blocks
          dump_all_keeps_blocks split: sum.splits)
  qed
qed

lemma assemble_spec: "assemble bs = spec_output bs"
proof -
  have "bs \<noteq> [] \<Longrightarrow> join [CHR 0x0A, CHR 0x0A] bs = blank_line_separated bs"
    by (induction bs rule: blank_line_separated.induct) (auto simp: join_def)
  then show ?thesis by (cases "bs = []") (auto simp: assemble_def spec_output_def join_def)
qed

lemma process_resources_append:
  "process_resources loads dumper st (xs @ ys) =
     (case process_resources loads dumper st xs of
        Inl e \<Rightarrow> Inl e
      | Inr st1 \<Rightarrow> process_resources loads dumper st1 ys)"
  by (induction xs arbitrary: st) (auto split: sum.splits)

lemma process_resources_blocks:
  "process_resources loads dumper (st\<lparr>blocks := bs\<rparr>) rs =
     map_sum id (\<lambda>s. s\<lparr>blocks := bs @ drop (length (blocks st)) (blocks s)\<rparr>)
       (process_resources loads dumper st rs)"
  by (auto simp: process_resources_char dump_all_blocks split: sum.splits)

lemma re_search_Some: "re_search toks s = Some k \<Longrightarrow> k \<in> set toks \<and> contains k s"
proof (induction s)
  case Nil
  then show ?case by (auto simp: find_Some_iff)
next
  case (Cons c cs)
  then show ?case by (auto simp: find_Some_iff split: option.splits)
qed

lemma classify_None: "\<forall>kv \<in> set TERRAFORM_TYPE_MAP. \<not> contains (fst kv) tag \<Longrightarrow> classify tag = None"
  by (auto simp: classify_def find_None_iff)
















text \<open>C8. Output assembly: the text returned is the entries of the groups, in the order of
  the groups and within a group in the order of its items, consecutive entries separated
  by exactly one blank line, with a single trailing newline if and only if there is an
  entry; the run raises exactly when producing an entry raises.\<close>

theorem output_assembly:
  "map_sum id fst (compose_import_hcl loads resources dump_path) =
   map_sum id (\<lambda>ess. spec_output (concat ess)) (collect (map (spec_group_entries loads) resources))
   \<and> (spec_output entries = [] \<longleftrightarrow> entries = [])"
proof -
  have "spec_output entries = [] \<longleftrightarrow> entries = []"
    by (simp add: spec_output_def)
  then show ?thesis
    by (auto simp: compose_import_hcl_def process_resources_char assemble_spec Let_def split: sum.splits)
qed

text \<open>C6. Unsupported-kind skip: a group whose tag contains no key of the classifier table
  appends exactly one entry to the output, the diagnostic naming the tag, and nothing else
  (no import block, no sample line); and in a run with the groups \<open>pre\<close> before it and
  \<open>post\<close> after it, the entries and samples of those groups are what they are without it,
  the diagnostic standing between them.\<close>

theorem unsupported_group_skipped:
  assumes "detect_tag g = Inr tag" and "\<forall>kv \<in> set TERRAFORM_TYPE_MAP. \<not> contains (fst kv) tag"
  shows "process_resource loads dumper st g
           = Inr (st\<lparr>blocks := blocks st @ [''# Skipping unsupported resource tag: '' @ tag]\<rparr>)
       \<and> process_resources loads dumper st (pre @ g # post) =
           (case process_resources loads dumper st pre of
              Inl e \<Rightarrow> Inl e
            | Inr st1 \<Rightarrow>
                (case process_resources loads dumper st1 post of
                   Inl e \<Rightarrow> Inl e
                 | Inr st2 \<Rightarrow>
                     Inr (st2\<lparr>blocks := blocks st1 @ (''# Skipping unsupported resource tag: '' @ tag)
                                  # drop (length (blocks st1)) (blocks st2)\<rparr>)))"
proof -
  have c: "classify tag = None" using assms(2) by (rule classify_None)
  have one: "\<And>s. process_resource loads dumper s g
           = Inr (s\<lparr>blocks := blocks s @ [''# Skipping unsupported resource tag: '' @ tag]\<rparr>)"
    using assms(1) c by (simp add: process_resource_def)
  show ?thesis
    by (auto simp: one process_resources_append process_resources_blocks split: sum.splits)
qed

theorem unsupported_group_skipped_witness:
  "process_resource json_reject False \<lparr>blocks = [], dumped = 0, sample = []\<rparr> unknown_group
     = Inr \<lparr>blocks = [''# Skipping unsupported resource tag: UNKNOWN_TYPE''], dumped = 0, sample = []\<rparr>"
proof -
  have t: "detect_tag unknown_group = Inr ''UNKNOWN_TYPE''" by code_simp
  have n: "\<forall>kv \<in> set TERRAFORM_TYPE_MAP. \<not> contains (fst kv) ''UNKNOWN_TYPE''" by code_simp
  show ?thesis
    using unsupported_group_skipped [OF t n, of json_reject False "\<lparr>blocks = [], dumped = 0, sample = []\<rparr>" "[]" "[]"]
    by simp
qed






section \<open>Falsy identifiers\<close>

lemma truthy_present: "truthy v \<Longrightarrow> v \<noteq> PNone \<and> v \<noteq> PStr []"
  by (cases v) auto













section \<open>Exception safety\<close>

text \<open>Every operation on a benign value returns, or raises an exception deriving from
  \<open>Exception\<close>, and what it returns is benign again.\<close>

subsection \<open>The object protocol and the prober\<close>

lemma benign_attr:
  "benign (PObj a r attrs) \<Longrightarrow> map_of attrs k = Some at \<Longrightarrow>
   (case at of IField v \<Rightarrow> benign v | CAttr v \<Rightarrow> benign v | PropRaise e \<Rightarrow> e = AttributeError)"
  by (auto simp: list_all_iff dest!: map_of_SomeD)

lemma py_getattr_safe:
  "benign ob \<Longrightarrow> \<exists>r. py_getattr ob k = Inr r \<and> (case r of None \<Rightarrow> True | Some v \<Rightarrow> benign v)"
proof (cases ob)
  case (PObj a r attrs)
  assume b: "benign ob"
  show ?thesis
  proof (cases "map_of attrs k")
    case None
    then show ?thesis using PObj by simp
  next
    case (Some at)
    then show ?thesis using PObj benign_attr [of a r attrs k at] b by (cases at) auto
  qed
next
  case (PDict a kvs)
  assume "benign ob"
  then show ?thesis using PDict by (auto simp: list_all_iff)
qed auto

lemma getattr_safe: "benign ob \<Longrightarrow> \<exists>v. getattr_default ob k = Inr v \<and> benign v"
  using py_getattr_safe [of ob k] by (auto simp: getattr_default_def split: option.splits)

lemma hasattr_safe: "benign ob \<Longrightarrow> \<exists>b. hasattr ob k = Inr b"
  using py_getattr_safe [of ob k] by (auto simp: hasattr_def)

lemma call0_safe:
  "benign f \<Longrightarrow> (case call0 f of Inl e \<Rightarrow> is_Exception e | Inr v \<Rightarrow> benign v)"
  by (cases f) (auto simp: is_Exception_def split: sum.splits)

lemma call1_safe:
  "benign f \<Longrightarrow> (case call1 f arg of Inl e \<Rightarrow> is_Exception e | Inr v \<Rightarrow> benign v)"
proof (cases f)
  case (PFun1 r tbl dflt)
  assume b: "benign f"
  have "\<And>k out. map_of tbl k = Some out \<Longrightarrow> (case out of Inl e \<Rightarrow> is_Exception e | Inr v \<Rightarrow> benign v)"
    using b PFun1 by (auto simp: list_all_iff dest!: map_of_SomeD)
  then show ?thesis using b PFun1
    by (cases arg) (auto simp: call1_def split: option.splits)
qed (auto simp: call1_def is_Exception_def)

lemma py_list_safe:
  "benign v \<Longrightarrow> (case py_list v of Inl e \<Rightarrow> is_Exception e | Inr xs \<Rightarrow> list_all benign xs)"
proof (cases v)
  case (PObj a r attrs)
  assume b: "benign v"
  show ?thesis
  proof (cases "map_of attrs ''__iter__''")
    case None
    then show ?thesis using PObj by (simp add: is_Exception_def)
  next
    case (Some at)
    show ?thesis
    proof (cases at)
      case (CAttr f)
      then have "benign f" using benign_attr [of a r attrs "''__iter__''" at] b PObj Some by simp
      then show ?thesis using call0_safe [of f] PObj Some CAttr
        by (auto simp: is_Exception_def split: sum.splits pyval.splits)
    qed (use PObj Some in \<open>auto simp: is_Exception_def\<close>)
  qed
qed (auto simp: is_Exception_def list_all_iff)

lemma dict_put_benign:
  "list_all (\<lambda>kv. benign (snd kv)) acc \<Longrightarrow> benign v \<Longrightarrow>
   list_all (\<lambda>kv. benign (snd kv)) (dict_put acc n v)"
  by (induction acc) auto

lemma comprehend_safe:
  "benign g \<Longrightarrow> list_all (\<lambda>kv. benign (snd kv)) acc \<Longrightarrow>
   (case comprehend g ks acc of
      Inl e \<Rightarrow> is_Exception e
    | Inr kvs \<Rightarrow> list_all (\<lambda>kv. benign (snd kv)) kvs)"
proof (induction ks arbitrary: acc)
  case Nil
  then show ?case by simp
next
  case (Cons k ks)
  show ?case
  proof (cases "\<exists>n. k = PStr n")
    case False
    then have "comprehend g (k # ks) acc = Inl TypeError" by (cases k) auto
    then show ?thesis by (simp add: is_Exception_def)
  next
    case True
    then obtain n where n: "k = PStr n" by blast
    show ?thesis
    proof (cases "call1 g k")
      case (Inl e)
      then show ?thesis using call1_safe [OF Cons.prems(1), of k] n by simp
    next
      case (Inr v)
      then have "benign v" using call1_safe [OF Cons.prems(1), of k] by simp
      then have "list_all (\<lambda>kv. benign (snd kv)) (dict_put acc n v)"
        using Cons.prems(2) by (rule dict_put_benign [rotated])
      then show ?thesis using Cons.IH [OF Cons.prems(1)] Inr n by simp
    qed
  qed
qed

lemma materialize_safe:
  assumes b: "benign ob"
  shows "case materialize ob of Inl e \<Rightarrow> is_Exception e | Inr kvs \<Rightarrow> list_all (\<lambda>kv. benign (snd kv)) kvs"
proof -
  obtain r1 where r1: "py_getattr ob ''keys'' = Inr r1"
    and b1: "case r1 of None \<Rightarrow> True | Some v \<Rightarrow> benign v"
    using py_getattr_safe [OF b, of "''keys''"] by blast
  show ?thesis
  proof (cases r1)
    case None
    then show ?thesis using r1 by (simp add: materialize_def is_Exception_def)
  next
    case (Some kf)
    then have bk: "benign kf" using b1 by simp
    show ?thesis
    proof (cases "call0 kf")
      case (Inl e1)
      then show ?thesis using call0_safe [OF bk] r1 Some by (simp add: materialize_def)
    next
      case (Inr kv)
      then have bkv: "benign kv" using call0_safe [OF bk] by simp
      show ?thesis
      proof (cases "py_list kv")
        case (Inl e2)
        then show ?thesis using py_list_safe [OF bkv] r1 Some Inr by (simp add: materialize_def)
      next
        case ks: (Inr ks)
        obtain r2 where r2: "py_getattr ob ''get'' = Inr r2"
          and b2: "case r2 of None \<Rightarrow> True | Some v \<Rightarrow> benign v"
          using py_getattr_safe [OF b, of "''get''"] by blast
        show ?thesis
        proof (cases r2)
          case None
          then show ?thesis using r1 Some Inr ks r2
            by (simp add: materialize_def is_Exception_def)
        next
          case g: (Some g)
          then have "benign g" using b2 by simp
          then show ?thesis using comprehend_safe [of g "[]" ks] r1 Some Inr ks r2 g
            by (simp add: materialize_def)
        qed
      qed
    qed
  qed
qed

lemma mapping_like_safe: "benign ob \<Longrightarrow> good_probe (mapping_like ob)"
proof -
  assume b: "benign ob"
  obtain h1 where h1: "hasattr ob ''keys'' = Inr h1" using hasattr_safe [OF b] by blast
  obtain h2 where h2: "hasattr ob ''get'' = Inr h2" using hasattr_safe [OF b] by blast
  show ?thesis
  proof (cases "materialize ob")
    case (Inl e)
    then have "is_Exception e" using materialize_safe [OF b] by simp
    then show ?thesis using h1 h2 Inl
      by (cases h1; cases h2) (simp_all add: mapping_like_def good_probe_def)
  next
    case (Inr kvs)
    then have "list_all (\<lambda>kv. benign (snd kv)) kvs" using materialize_safe [OF b] by simp
    then show ?thesis using h1 h2 Inr
      by (cases h1; cases h2) (simp_all add: mapping_like_def good_probe_def)
  qed
qed

lemma json_try_parse_safe: "loads_safe loads \<Longrightarrow> \<exists>v. json_try_parse loads s = Inr v \<and> benign v"
proof -
  assume "loads_safe loads"
  then have l: "case loads s of Inl e \<Rightarrow> is_Exception e | Inr v \<Rightarrow> benign v"
    by (simp add: loads_safe_def)
  show ?thesis
    using l by (cases s; cases "loads s") (simp_all add: json_try_parse_def)
qed

lemma json_probe_safe:
  assumes b: "benign ob" and l: "loads_safe loads"
  shows "good_probe (json_probe loads ob)"
proof -
  obtain fn where fn: "getattr_default ob ''json'' = Inr fn" and bf: "benign fn"
    using getattr_safe [OF b] by blast
  show ?thesis
  proof (cases "is_callable fn")
    case False
    then show ?thesis using fn by (simp add: json_probe_def good_probe_def)
  next
    case True
    show ?thesis
    proof (cases "call0 fn")
      case (Inl e)
      then show ?thesis using call0_safe [OF bf] fn True by (simp add: json_probe_def good_probe_def)
    next
      case (Inr s)
      obtain v where "json_try_parse loads s = Inr v" "benign v"
        using json_try_parse_safe [OF l] by blast
      then show ?thesis using fn True Inr by (simp add: json_probe_def good_probe_def)
    qed
  qed
qed

lemma ifields_subset: "(k, v) \<in> set (ifields attrs) \<Longrightarrow> (k, IField v) \<in> set attrs"
proof (induction attrs arbitrary: k v rule: ifields.induct)
  case 1
  then show ?case by simp
next
  case (2 ka rest)
  from "2.prems" have
    "(k, v) \<in> set (case snd ka of IField v \<Rightarrow> [(fst ka, v)] | _ \<Rightarrow> [])
     \<or> (k, v) \<in> set (ifields (filter (\<lambda>p. fst p \<noteq> fst ka) rest))"
    by (simp only: ifields.simps set_append Un_iff)
  then show ?case
  proof
    assume "(k, v) \<in> set (case snd ka of IField v \<Rightarrow> [(fst ka, v)] | _ \<Rightarrow> [])"
    then have "snd ka = IField v \<and> fst ka = k" by (cases "snd ka") simp_all
    then have "ka = (k, IField v)" by (cases ka) simp
    then show ?thesis by simp
  next
    assume "(k, v) \<in> set (ifields (filter (\<lambda>p. fst p \<noteq> fst ka) rest))"
    then have "(k, IField v) \<in> set (filter (\<lambda>p. fst p \<noteq> fst ka) rest)" by (rule "2.IH")
    then show ?thesis by simp
  qed
qed

lemma py_vars_error: "py_vars ob = Inl e \<Longrightarrow> is_Exception e"
  by (cases ob) (auto simp: is_Exception_def)

lemma py_vars_benign: "benign ob \<Longrightarrow> py_vars ob = Inr v \<Longrightarrow> kv \<in> set v \<Longrightarrow> benign (snd kv)"
proof (cases ob)
  case (PObj a r attrs)
  assume b: "benign ob" and v: "py_vars ob = Inr v" and kv: "kv \<in> set v"
  then have "(fst kv, snd kv) \<in> set (ifields attrs)" using PObj by simp
  then have "(fst kv, IField (snd kv)) \<in> set attrs" by (rule ifields_subset)
  then show ?thesis using b PObj by (auto simp: list_all_iff)
qed auto

lemma good_probe_cases:
  "good_probe x \<Longrightarrow> (x = Inr None \<or> (\<exists>d. x = Inr (Some d) \<and> benign d))"
  by (auto simp: good_probe_def split: sum.splits option.splits)

lemma walk_safe:
  "loads_safe loads \<Longrightarrow> benign ob \<Longrightarrow> good_probe (fst (walk loads seen ob depth))"
  "loads_safe loads \<Longrightarrow> benign ob \<Longrightarrow> good_probe (fst (walk_containers loads seen ob depth names))"
  "loads_safe loads \<Longrightarrow> benign ob \<Longrightarrow> good_probe (fst (walk_methods loads seen ob depth names))"
proof (induction loads seen ob depth and loads seen ob depth names and loads seen ob depth names
    rule: walk_walk_containers_walk_methods.induct)
  case (1 loads seen ob depth)
  note ls = "1.prems"(1) and b = "1.prems"(2)
  show ?case
  proof (cases "ob = PNone \<or> seen_hit seen ob \<or> depth < 0 \<or> is_dict ob")
    case True
    then show ?thesis using b by (auto simp: good_probe_def)
  next
    case False
    then have n: "ob \<noteq> PNone" "\<not> (seen_hit seen ob \<or> depth < 0)" "\<not> is_dict ob" by auto
    from good_probe_cases [OF mapping_like_safe [OF b]] show ?thesis
    proof
      assume "\<exists>d. mapping_like ob = Inr (Some d) \<and> benign d"
      then show ?thesis using n by (auto simp: good_probe_def)
    next
      assume m: "mapping_like ob = Inr None"
      obtain x y where c: "(x, y) = walk_containers loads (mark seen ob) ob depth container_attrs"
        by (metis surj_pair)
      have "good_probe x" using "1.IH"(1) [OF n m refl ls b] c [symmetric] by simp
      from good_probe_cases [OF this] show ?thesis
      proof
        assume "\<exists>d. x = Inr (Some d) \<and> benign d"
        then show ?thesis using n m c [symmetric] by (auto simp: good_probe_def)
      next
        assume x: "x = Inr None"
        obtain xa ya where w: "(xa, ya) = walk_methods loads y ob depth conversion_methods"
          by (metis surj_pair)
        have "good_probe xa" using "1.IH"(2) [OF n m refl c x refl ls b] w [symmetric] by simp
        from good_probe_cases [OF this] show ?thesis
        proof
          assume "\<exists>d. xa = Inr (Some d) \<and> benign d"
          then show ?thesis using n m c [symmetric] x w [symmetric] by (auto simp: good_probe_def)
        next
          assume xa: "xa = Inr None"
          from good_probe_cases [OF json_probe_safe [OF b ls]] show ?thesis
          proof
            assume "\<exists>d. json_probe loads ob = Inr (Some d) \<and> benign d"
            then show ?thesis
              using n m c [symmetric] x w [symmetric] xa by (auto simp: good_probe_def)
          next
            assume j: "json_probe loads ob = Inr None"
            show ?thesis
            proof (cases "py_vars ob")
              case (Inl e)
              then have "is_Exception e" by (rule py_vars_error)
              then show ?thesis
                using n m c [symmetric] x w [symmetric] xa j Inl by (simp add: good_probe_def)
            next
              case (Inr bd)
              have bbd: "benign (PDict None bd)"
                using py_vars_benign [OF b Inr] by (auto simp: list_all_iff)
              show ?thesis
              proof (cases "bd \<noteq> [] \<and> length bd = 1")
                case False
                then show ?thesis
                  using n m c [symmetric] x w [symmetric] xa j Inr bbd
                  by (auto simp: good_probe_def)
              next
                case True
                then have t: "bd \<noteq> []" "length bd = 1" by auto
                have "hd bd \<in> set bd" using t by simp
                then have bh: "benign (snd (hd bd))" using py_vars_benign [OF b Inr] by blast
                obtain x3 y3 where w3: "walk loads ya (snd (hd bd)) (depth - 1) = (x3, y3)"
                  by (metis surj_pair)
                have "good_probe x3"
                  using "1.IH"(3) [OF n m refl c x refl w xa refl j refl Inr t ls bh] w3 by simp
                from good_probe_cases [OF this] show ?thesis
                proof
                  assume "\<exists>d. x3 = Inr (Some d) \<and> benign d"
                  then show ?thesis
                    using n m c [symmetric] x w [symmetric] xa j Inr t w3
                    by (auto simp: good_probe_def)
                next
                  assume "x3 = Inr None"
                  then show ?thesis
                    using n m c [symmetric] x w [symmetric] xa j Inr t w3 bbd
                    by (simp add: good_probe_def)
                qed
              qed
            qed
          qed
        qed
      qed
    qed
  qed
next
  case (2 loads seen ob depth)
  then show ?case by (simp add: good_probe_def)
next
  case (3 loads seen ob depth attr rest)
  note ls = "3.prems"(1) and b = "3.prems"(2)
  obtain v where g: "getattr_default ob attr = Inr v" and bv: "benign v"
    using getattr_safe [OF b] by blast
  show ?case
  proof (cases "is_dict v")
    case True
    then show ?thesis using g bv by (simp add: good_probe_def)
  next
    case nd: False
    show ?thesis
    proof (cases "v = PNone")
      case True
      then show ?thesis using "3.IH"(3) [OF g nd _ ls b] g nd by simp
    next
      case False
      obtain x y where w: "(x, y) = walk loads seen v (depth - 1)" by (metis surj_pair)
      have "good_probe x" using "3.IH"(1) [OF g nd False ls bv] w [symmetric] by simp
      from good_probe_cases [OF this] show ?thesis
      proof
        assume "\<exists>d. x = Inr (Some d) \<and> benign d"
        then show ?thesis using g nd False w [symmetric] by (auto simp: good_probe_def)
      next
        assume x: "x = Inr None"
        then show ?thesis
          using "3.IH"(2) [OF g nd False w x refl ls b] g nd False w [symmetric] by simp
      qed
    qed
  qed
next
  case (4 loads seen ob depth)
  then show ?case by (simp add: good_probe_def)
next
  case (5 loads seen ob depth meth rest)
  note ls = "5.prems"(1) and b = "5.prems"(2)
  obtain fn where g: "getattr_default ob meth = Inr fn" and bf: "benign fn"
    using getattr_safe [OF b] by blast
  show ?case
  proof (cases "is_callable fn")
    case False
    then show ?thesis using "5.IH"(5) [OF g False ls b] g by simp
  next
    case True
    show ?thesis
    proof (cases "call0 fn")
      case (Inl e)
      then have ex: "is_Exception e" using call0_safe [OF bf] by simp
      show ?thesis using "5.IH"(1) [OF g True Inl ex ls b] g True Inl ex by simp
    next
      case (Inr v)
      then have bv: "benign v" using call0_safe [OF bf] by simp
      show ?thesis
      proof (cases "is_dict v")
        case True
        then show ?thesis using g \<open>is_callable fn\<close> Inr bv by (simp add: good_probe_def)
      next
        case nd: False
        obtain x y where w: "(x, y) = walk loads seen v (depth - 1)" by (metis surj_pair)
        have "good_probe x" using "5.IH"(2) [OF g True Inr nd ls bv] w [symmetric] by simp
        from good_probe_cases [OF this] show ?thesis
        proof
          assume "\<exists>d. x = Inr (Some d) \<and> benign d"
          then show ?thesis using g True Inr nd w [symmetric] by (auto simp: good_probe_def)
        next
          assume x: "x = Inr None"
          then show ?thesis
            using "5.IH"(4) [OF g True Inr nd w x refl ls b] g True Inr nd w [symmetric] by simp
        qed
      qed
    qed
  qed
qed

lemma probe_safe:
  "loads_safe loads \<Longrightarrow> benign ob \<Longrightarrow> good_probe (obj_to_dict_deep loads ob d)"
  using walk_safe(1) [of loads ob "[]" d] by (simp add: obj_to_dict_deep_def)

subsection \<open>Special methods, the extractors and the compile pass\<close>

lemma collect_all_Inr: "\<forall>r \<in> set rs. \<exists>x. r = Inr x \<Longrightarrow> \<exists>xs. collect rs = Inr xs"
proof (induction rs)
  case Nil
  then show ?case by simp
next
  case (Cons r rs)
  then obtain x xs where "r = Inr x" "collect rs = Inr xs" by auto
  then show ?case by simp
qed

lemma repr_of_safe: "benign v \<Longrightarrow> \<exists>s. repr_of v = Inr s"
proof (induction v)
  case (PList xs)
  then have "\<forall>r \<in> set (map repr_of xs). \<exists>x. r = Inr x" by (auto simp: list_all_iff)
  then obtain ss where "collect (map repr_of xs) = Inr ss" using collect_all_Inr by blast
  then show ?case by simp
next
  case (PTuple xs)
  then have "\<forall>r \<in> set (map repr_of xs). \<exists>x. r = Inr x" by (auto simp: list_all_iff)
  then obtain ss where "collect (map repr_of xs) = Inr ss" using collect_all_Inr by blast
  then show ?case by simp
next
  case (PDict a kvs)
  have "\<exists>x. (case repr_of (snd kv) of Inl e \<Rightarrow> Inl e
                | Inr t \<Rightarrow> Inr (repr_str (fst kv) @ '': '' @ t)) = Inr x" if kv: "kv \<in> set kvs" for kv
  proof -
    have m: "snd kv \<in> Basic_BNFs.snds kv" by (rule snds.intros)
    have bk: "benign (snd kv)" using PDict.prems kv by (auto simp: list_all_iff)
    obtain s where "repr_of (snd kv) = Inr s" using PDict.IH [OF kv m bk] by blast
    then show ?thesis by simp
  qed
  then have "\<forall>r \<in> set (map (\<lambda>kv. case repr_of (snd kv) of Inl e \<Rightarrow> Inl e
                | Inr t \<Rightarrow> Inr (repr_str (fst kv) @ '': '' @ t)) kvs). \<exists>x. r = Inr x"
    by auto
  then obtain ss where "collect (map (\<lambda>kv. case repr_of (snd kv) of Inl e \<Rightarrow> Inl e
                | Inr t \<Rightarrow> Inr (repr_str (fst kv) @ '': '' @ t)) kvs) = Inr ss"
    using collect_all_Inr by blast
  then show ?case by simp
next
  case (PObj a r attrs)
  then have "\<not> isl (repr_obj attrs r)" by (simp add: quiet_specials_def)
  then show ?case by (cases "repr_obj attrs r") auto
qed auto

lemma str_of_safe: "benign v \<Longrightarrow> \<exists>s. str_of v = Inr s"
proof (cases v)
  case (PObj a r attrs)
  assume "benign v"
  then have "\<not> isl (str_obj attrs r)" using PObj by (simp add: quiet_specials_def)
  then show ?thesis using PObj by (cases "str_obj attrs r") (auto simp: str_of_def)
qed (use repr_of_safe [of v] in \<open>auto simp: str_of_def\<close>)

lemma bool_of_safe: "benign v \<Longrightarrow> \<exists>b. bool_of v = Inr b"
proof (cases v)
  case (PObj a r attrs)
  assume "benign v"
  then have "\<not> isl (bool_obj attrs)" using PObj by (simp add: quiet_specials_def)
  then show ?thesis using PObj by (cases "bool_obj attrs") (auto simp: bool_of_def)
qed (auto simp: bool_of_def)

lemma ne_empty_of_safe: "benign v \<Longrightarrow> \<exists>b. ne_empty_of v = Inr b"
proof (cases v)
  case (PObj a r attrs)
  assume "benign v"
  then have "\<not> isl (ne_empty_obj attrs)" using PObj by (simp add: quiet_specials_def)
  then show ?thesis using PObj by (cases "ne_empty_obj attrs") (auto simp: ne_empty_of_def)
qed (auto simp: ne_empty_of_def)

lemma return_str_safe: "benign v \<Longrightarrow> \<exists>r. return_str v = Inr r"
  using str_of_safe [of v] by (auto simp: return_str_def)

lemma benign_lookup: "list_all (\<lambda>kv. benign (snd kv)) kvs \<Longrightarrow> map_of kvs k = Some v \<Longrightarrow> benign v"
  by (auto simp: list_all_iff dest!: map_of_SomeD)

lemma scan_top_full_safe:
  assumes b: "list_all (\<lambda>kv. benign (snd kv)) kvs"
  shows "\<exists>r. scan_top_full kvs ks = Inr r"
proof (induction ks)
  case Nil
  then show ?case by simp
next
  case (Cons k ks)
  show ?case
  proof (cases "map_of kvs k")
    case None
    then show ?thesis using Cons by simp
  next
    case (Some v)
    then have bv: "benign v" by (rule benign_lookup [OF b])
    obtain n where n: "ne_empty_of v = Inr n" using ne_empty_of_safe [OF bv] by blast
    obtain s where s: "return_str v = Inr s" using return_str_safe [OF bv] by blast
    show ?thesis using Cons Some n s by simp
  qed
qed

lemma scan_sub_full_safe:
  assumes b: "list_all (\<lambda>kv. benign (snd kv)) sub"
  shows "\<exists>r. scan_sub_full sub iks = Inr r"
proof (induction iks)
  case Nil
  then show ?case by simp
next
  case (Cons k ks)
  show ?case
  proof (cases "map_of sub k")
    case None
    then show ?thesis using Cons by simp
  next
    case (Some v)
    then have bv: "benign v" by (rule benign_lookup [OF b])
    obtain n where n: "bool_of v = Inr n" using bool_of_safe [OF bv] by blast
    obtain s where s: "return_str v = Inr s" using return_str_safe [OF bv] by blast
    show ?thesis using Cons Some n s by simp
  qed
qed

lemma scan_nested_full_safe:
  assumes b: "list_all (\<lambda>kv. benign (snd kv)) kvs"
  shows "\<exists>r. scan_nested_full kvs ks = Inr r"
proof (induction ks)
  case Nil
  then show ?case by simp
next
  case (Cons k ks)
  show ?case
  proof (cases "\<exists>a sub. map_of kvs k = Some (PDict a sub)")
    case True
    then obtain a sub where m: "map_of kvs k = Some (PDict a sub)" by blast
    then have "benign (PDict a sub)" by (rule benign_lookup [OF b])
    then obtain r where r: "scan_sub_full sub nested_id_keys = Inr r"
      using scan_sub_full_safe [of sub nested_id_keys] by auto
    show ?thesis using Cons m r by (cases r) simp_all
  next
    case False
    then have "scan_nested_full kvs (k # ks) = scan_nested_full kvs ks"
      by (cases "map_of kvs k") (auto split: pyval.splits)
    then show ?thesis using Cons by simp
  qed
qed

lemma scan_attrs_full_safe: "benign item \<Longrightarrow> \<exists>r. scan_attrs_full item ks = Inr r"
proof (induction ks)
  case Nil
  then show ?case by simp
next
  case (Cons k ks)
  obtain v where v: "getattr_default item k = Inr v" and bv: "benign v"
    using getattr_safe [OF Cons.prems] by blast
  obtain n where n: "bool_of v = Inr n" using bool_of_safe [OF bv] by blast
  obtain s where s: "return_str v = Inr s" using return_str_safe [OF bv] by blast
  show ?case using Cons v n s by simp
qed

lemma swallow_safe:
  "(case step of Inl e \<Rightarrow> is_Exception e | Inr v \<Rightarrow> benign v) \<Longrightarrow>
   \<exists>r. swallow (return_if_truthy step) = Inr r"
proof (cases step)
  case (Inl e)
  assume "case step of Inl e \<Rightarrow> is_Exception e | Inr v \<Rightarrow> benign v"
  then show ?thesis using Inl by (simp add: swallow_def return_if_truthy_def)
next
  case (Inr v)
  assume "case step of Inl e \<Rightarrow> is_Exception e | Inr v \<Rightarrow> benign v"
  then have bv: "benign v" using Inr by simp
  obtain n where n: "bool_of v = Inr n" using bool_of_safe [OF bv] by blast
  obtain s where s: "return_str v = Inr s" using return_str_safe [OF bv] by blast
  show ?thesis using Inr n s by (simp add: swallow_def return_if_truthy_def)
qed

lemma scan_get_full_safe: "benign g \<Longrightarrow> \<exists>r. scan_get_full g ks = Inr r"
proof (induction ks)
  case Nil
  then show ?case by simp
next
  case (Cons k ks)
  obtain r where r: "swallow (return_if_truthy (call1 g (PStr k))) = Inr r"
    using swallow_safe [OF call1_safe [OF Cons.prems, of "PStr k"]] by blast
  show ?case using Cons r by (cases r) simp_all
qed

lemma py_index_safe:
  "benign v \<Longrightarrow> (case py_index v k of Inl e \<Rightarrow> is_Exception e | Inr w \<Rightarrow> benign w)"
proof (cases v)
  case (PObj a r attrs)
  assume b: "benign v"
  show ?thesis
  proof (cases "map_of attrs ''__getitem__''")
    case None
    then show ?thesis using PObj by (simp add: is_Exception_def)
  next
    case (Some at)
    show ?thesis
    proof (cases at)
      case (CAttr f)
      then have "benign f" using benign_attr [of a r attrs "''__getitem__''" at] b PObj Some by simp
      then show ?thesis using call1_safe [of f "PStr k"] PObj Some CAttr by simp
    qed (use PObj Some in \<open>auto simp: is_Exception_def\<close>)
  qed
next
  case (PDict a kvs)
  assume "benign v"
  then show ?thesis using PDict benign_lookup [of kvs k]
    by (cases "map_of kvs k") (auto simp: is_Exception_def)
qed (auto simp: is_Exception_def)

lemma try_index_full_safe: "benign v \<Longrightarrow> \<exists>r. try_index_full v k = Inr r"
  using swallow_safe [OF py_index_safe [of v k]] by (simp add: try_index_full_def)

lemma id_fallbacks_full_safe:
  assumes b: "benign item"
  shows "\<exists>r. id_fallbacks_full item = Inr r"
proof -
  obtain r1 where r1: "scan_attrs_full item id_keys = Inr r1" using scan_attrs_full_safe [OF b] by blast
  obtain g where g: "getattr_default item ''get'' = Inr g" and bg: "benign g"
    using getattr_safe [OF b] by blast
  obtain r2 where r2: "(if is_callable g then scan_get_full g nested_id_keys else Inr None) = Inr r2"
    using scan_get_full_safe [OF bg, of nested_id_keys] by (cases "is_callable g") auto
  obtain r3 where r3: "try_index_full item ''jpro_id'' = Inr r3" using try_index_full_safe [OF b] by blast
  obtain r4 where r4: "try_index_full item ''id'' = Inr r4" using try_index_full_safe [OF b] by blast
  show ?thesis
    by (cases r1; cases r2; cases r3) (simp_all add: id_fallbacks_full_def r1 g r2 r3 r4)
qed

lemma probe_cases:
  assumes l: "loads_safe loads" and b: "benign item"
  shows "obj_to_dict_deep loads item d = Inr None
       \<or> (\<exists>v. obj_to_dict_deep loads item d = Inr (Some v) \<and> benign v)"
  using good_probe_cases [OF probe_safe [OF l b]] by simp

lemma extract_id_any_full_safe:
  assumes l: "loads_safe loads" and b: "benign item"
  shows "\<exists>r. extract_id_any_full loads item = Inr r"
proof -
  obtain f where f: "id_fallbacks_full item = Inr f" using id_fallbacks_full_safe [OF b] by blast
  from probe_cases [OF l b, of 3] show ?thesis
  proof
    assume "obj_to_dict_deep loads item 3 = Inr None"
    then show ?thesis using f by (simp add: extract_id_any_full_def)
  next
    assume "\<exists>v. obj_to_dict_deep loads item 3 = Inr (Some v) \<and> benign v"
    then obtain v where v: "obj_to_dict_deep loads item 3 = Inr (Some v)" and bv: "benign v" by blast
    show ?thesis
    proof (cases "\<exists>a kvs. v = PDict a kvs")
      case False
      then show ?thesis using v f by (cases v) (simp_all add: extract_id_any_full_def)
    next
      case True
      then obtain a kvs where d: "v = PDict a kvs" by blast
      then have bk: "list_all (\<lambda>kv. benign (snd kv)) kvs" using bv by simp
      obtain r1 where r1: "scan_top_full kvs id_keys = Inr r1" using scan_top_full_safe [OF bk] by blast
      obtain r2 where r2: "scan_nested_full kvs nested_keys = Inr r2"
        using scan_nested_full_safe [OF bk] by blast
      show ?thesis
        by (cases r1; cases r2) (simp_all add: extract_id_any_full_def v d r1 r2 f)
    qed
  qed
qed

lemma return_name_safe: "benign v \<Longrightarrow> \<exists>r. return_name_if_truthy v = Inr r"
proof -
  assume bv: "benign v"
  obtain n where n: "bool_of v = Inr n" using bool_of_safe [OF bv] by blast
  obtain s where s: "str_of v = Inr s" using str_of_safe [OF bv] by blast
  show ?thesis by (simp add: return_name_if_truthy_def sanitize_name_full_def n s)
qed

lemma scan_names_full_safe:
  assumes b: "list_all (\<lambda>kv. benign (snd kv)) kvs"
  shows "\<exists>r. scan_names_full kvs ks = Inr r"
proof (induction ks)
  case Nil
  then show ?case by simp
next
  case (Cons k ks)
  show ?case
  proof (cases "map_of kvs k")
    case None
    then show ?thesis using Cons by simp
  next
    case (Some v)
    then have bv: "benign v" by (rule benign_lookup [OF b])
    obtain r where r: "return_name_if_truthy v = Inr r" using return_name_safe [OF bv] by blast
    show ?thesis using Cons Some r by (cases r) simp_all
  qed
qed

lemma scan_nested_names_full_safe:
  assumes b: "list_all (\<lambda>kv. benign (snd kv)) kvs"
  shows "\<exists>r. scan_nested_names_full kvs ks = Inr r"
proof (induction ks)
  case Nil
  then show ?case by simp
next
  case (Cons k ks)
  show ?case
  proof (cases "\<exists>a sub. map_of kvs k = Some (PDict a sub)")
    case True
    then obtain a sub where m: "map_of kvs k = Some (PDict a sub)" by blast
    then have "benign (PDict a sub)" by (rule benign_lookup [OF b])
    then have bs: "list_all (\<lambda>kv. benign (snd kv)) sub" by simp
    show ?thesis
    proof (cases "map_of sub ''name''")
      case None
      then show ?thesis using Cons m by simp
    next
      case (Some v)
      then have bv: "benign v" by (rule benign_lookup [OF bs])
      obtain r where r: "return_name_if_truthy v = Inr r" using return_name_safe [OF bv] by blast
      show ?thesis using Cons m Some r by (cases r) simp_all
    qed
  next
    case False
    then have "scan_nested_names_full kvs (k # ks) = scan_nested_names_full kvs ks"
      by (cases "map_of kvs k") (auto split: pyval.splits)
    then show ?thesis using Cons by simp
  qed
qed

lemma scan_name_attrs_full_safe: "benign item \<Longrightarrow> \<exists>r. scan_name_attrs_full item ks = Inr r"
proof (induction ks)
  case Nil
  then show ?case by simp
next
  case (Cons k ks)
  obtain v where v: "getattr_default item k = Inr v" and bv: "benign v"
    using getattr_safe [OF Cons.prems] by blast
  obtain r where r: "return_name_if_truthy v = Inr r" using return_name_safe [OF bv] by blast
  show ?case using Cons v r by (cases r) simp_all
qed

lemma name_fallbacks_full_safe: "benign item \<Longrightarrow> \<exists>r. name_fallbacks_full item fid = Inr r"
  using scan_name_attrs_full_safe [of item name_attrs]
  by (auto simp: name_fallbacks_full_def split: option.splits)

lemma extract_name_any_full_safe:
  assumes l: "loads_safe loads" and b: "benign item"
  shows "\<exists>r. extract_name_any_full loads item fid = Inr r"
proof -
  obtain f where f: "name_fallbacks_full item fid = Inr f" using name_fallbacks_full_safe [OF b] by blast
  from probe_cases [OF l b, of 3] show ?thesis
  proof
    assume "obj_to_dict_deep loads item 3 = Inr None"
    then show ?thesis using f by (simp add: extract_name_any_full_def)
  next
    assume "\<exists>v. obj_to_dict_deep loads item 3 = Inr (Some v) \<and> benign v"
    then obtain v where v: "obj_to_dict_deep loads item 3 = Inr (Some v)" and bv: "benign v" by blast
    show ?thesis
    proof (cases "\<exists>a kvs. v = PDict a kvs")
      case False
      then show ?thesis using v f by (cases v) (simp_all add: extract_name_any_full_def)
    next
      case True
      then obtain a kvs where d: "v = PDict a kvs" by blast
      then have bk: "list_all (\<lambda>kv. benign (snd kv)) kvs" using bv by simp
      obtain r1 where r1: "scan_names_full kvs name_keys = Inr r1" using scan_names_full_safe [OF bk] by blast
      obtain r2 where r2: "scan_nested_names_full kvs nested_keys = Inr r2"
        using scan_nested_names_full_safe [OF bk] by blast
      show ?thesis
        by (cases r1; cases r2) (simp_all add: extract_name_any_full_def v d r1 r2 f)
    qed
  qed
qed

lemma item_entry_full_safe:
  assumes l: "loads_safe loads" and b: "benign item"
  shows "\<exists>e. item_entry_full loads tf tag item = Inr e"
proof -
  obtain rid where rid: "extract_id_any_full loads item = Inr rid"
    using extract_id_any_full_safe [OF l b] by blast
  obtain shown where shown: "repr_of item = Inr shown" using repr_of_safe [OF b] by blast
  show ?thesis
  proof (cases "case rid of None \<Rightarrow> None | Some r \<Rightarrow> (if r = [] then None else Some r)")
    case None
    then show ?thesis by (simp add: item_entry_full_def rid shown)
  next
    case (Some r)
    obtain n where "extract_name_any_full loads item r = Inr n"
      using extract_name_any_full_safe [OF l b] by blast
    then show ?thesis using Some by (simp add: item_entry_full_def rid)
  qed
qed

lemma sample_line_full_safe:
  assumes l: "loads_safe loads" and b: "benign item"
  shows "case sample_line_full loads item of Inl e \<Rightarrow> is_Exception e | Inr line \<Rightarrow> True"
proof -
  have j: "case json_dumps v of Inl e \<Rightarrow> is_Exception e | Inr t \<Rightarrow> True" for v
    using json_dumps_error [of v] by (cases "json_dumps v") (auto simp: is_Exception_def)
  obtain shown where shown: "repr_of item = Inr shown" using repr_of_safe [OF b] by blast
  from probe_cases [OF l b, of 3] show ?thesis
  proof
    assume "obj_to_dict_deep loads item 3 = Inr None"
    then show ?thesis using j [of "PDict None [(''repr'', PStr shown)]"] shown
      by (simp add: sample_line_full_def split: sum.splits)
  next
    assume "\<exists>v. obj_to_dict_deep loads item 3 = Inr (Some v) \<and> benign v"
    then obtain v where v: "obj_to_dict_deep loads item 3 = Inr (Some v)" by blast
    show ?thesis using j [of v] v by (simp add: sample_line_full_def split: sum.splits)
  qed
qed

lemma dump_item_full_safe:
  assumes l: "loads_safe loads" and b: "benign item"
    and w: "\<forall>n. case write_error fs n of None \<Rightarrow> True | Some e \<Rightarrow> is_Exception e"
  shows "\<exists>st1. dump_item_full fs loads dumper st item = Inr st1"
proof -
  have "case write_error fs (attempts st) of None \<Rightarrow> True | Some e \<Rightarrow> is_Exception e"
    using w by blast
  then show ?thesis
    using sample_line_full_safe [OF l b]
    by (cases "sample_line_full loads item"; cases "write_error fs (attempts st)")
       (simp_all add: dump_item_full_def)
qed

lemma process_items_full_safe:
  assumes l: "loads_safe loads"
    and w: "\<forall>n. case write_error fs n of None \<Rightarrow> True | Some e \<Rightarrow> is_Exception e"
  shows "list_all benign items \<Longrightarrow> \<exists>st1. process_items_full fs loads dumper tf tag st items = Inr st1"
proof (induction items arbitrary: st)
  case Nil
  then show ?case by simp
next
  case (Cons item items)
  then have b: "benign item" and bs: "list_all benign items" by auto
  obtain st1 where d: "dump_item_full fs loads dumper st item = Inr st1"
    using dump_item_full_safe [OF l b w] by blast
  obtain e where e: "item_entry_full loads tf tag item = Inr e"
    using item_entry_full_safe [OF l b] by blast
  show ?case using Cons.IH [OF bs] d e by simp
qed

lemma detect_tag_full_safe: "benign res \<Longrightarrow> \<exists>t. detect_tag_full res = Inr t"
proof -
  assume b: "benign res"
  obtain t where t: "getattr_default res ''resource_type'' = Inr t" and bt: "benign t"
    using getattr_safe [OF b] by blast
  obtain p where p: "getattr_default res ''provider_tag'' = Inr p" and bp: "benign p"
    using getattr_safe [OF b] by blast
  obtain s1 where s1: "str_of t = Inr s1" using str_of_safe [OF bt] by blast
  obtain s2 where s2: "str_of p = Inr s2" using str_of_safe [OF bp] by blast
  show ?thesis
    by (cases "t = PNone") (simp_all add: detect_tag_full_def t p s1 s2 split: option.splits)
qed

lemma items_from_call_safe:
  assumes b: "benign fn"
  shows "\<exists>r. items_from_call fn = Inr r \<and> (case r of None \<Rightarrow> True | Some xs \<Rightarrow> list_all benign xs)"
proof (cases "call0 fn")
  case (Inl e)
  then show ?thesis using call0_safe [OF b] by (simp add: items_from_call_def)
next
  case (Inr val)
  then have bv: "benign val" using call0_safe [OF b] by simp
  show ?thesis
  proof (cases "\<exists>xs. val = PList xs")
    case True
    then show ?thesis using Inr bv by (auto simp: items_from_call_def)
  next
    case False
    then have nl: "(case val of PList xs \<Rightarrow> f xs | _ \<Rightarrow> g) = g"
      for f :: "pyval list \<Rightarrow> exn + pyval list option" and g
      by (cases val) auto
    show ?thesis
      using py_list_safe [OF bv] Inr
      by (cases "py_list val") (simp_all add: items_from_call_def nl)
  qed
qed

lemma has_iter_safe: "benign v \<Longrightarrow> \<exists>h. has_iter v = Inr h"
  using hasattr_safe [of v "''__iter__''"] by (cases v) auto

lemma items_direct_safe:
  assumes b: "benign obj"
  shows "\<exists>r. items_direct obj = Inr r \<and> (case r of None \<Rightarrow> True | Some xs \<Rightarrow> list_all benign xs)"
proof (cases "\<exists>xs. obj = PList xs")
  case True
  then show ?thesis using b by (auto simp: items_direct_def)
next
  case False
  then have nl: "(case obj of PList xs \<Rightarrow> f xs | _ \<Rightarrow> g) = g"
    for f :: "pyval list \<Rightarrow> exn + pyval list option" and g
    by (cases obj) auto
  obtain h where h: "has_iter obj = Inr h" using has_iter_safe [OF b] by blast
  show ?thesis
    using py_list_safe [OF b] h
    by (cases "py_list obj") (simp_all add: items_direct_def nl)
qed

lemma items_from_attrs_safe:
  assumes b: "benign res"
  shows "\<exists>r. items_from_attrs res ks = Inr r \<and> (case r of None \<Rightarrow> True | Some xs \<Rightarrow> list_all benign xs)"
proof (induction ks)
  case Nil
  then show ?case by simp
next
  case (Cons k ks)
  obtain obj where g: "getattr_default res k = Inr obj" and bo: "benign obj"
    using getattr_safe [OF b] by blast
  obtain r1 where r1: "(if is_callable obj then items_from_call obj else Inr None) = Inr r1"
    and b1: "case r1 of None \<Rightarrow> True | Some xs \<Rightarrow> list_all benign xs"
    using items_from_call_safe [OF bo] by (cases "is_callable obj") auto
  obtain r2 where r2: "items_direct obj = Inr r2"
    and b2: "case r2 of None \<Rightarrow> True | Some xs \<Rightarrow> list_all benign xs"
    using items_direct_safe [OF bo] by blast
  show ?case
    using Cons b1 b2 by (cases r1; cases r2) (simp_all add: g r1 r2)
qed

lemma items_from_getters_safe:
  assumes b: "benign res"
  shows "\<exists>r. items_from_getters res ks = Inr r \<and> (case r of None \<Rightarrow> True | Some xs \<Rightarrow> list_all benign xs)"
proof (induction ks)
  case Nil
  then show ?case by simp
next
  case (Cons k ks)
  obtain fn where g: "getattr_default res k = Inr fn" and bo: "benign fn"
    using getattr_safe [OF b] by blast
  obtain r1 where r1: "(if is_callable fn then items_from_call fn else Inr None) = Inr r1"
    and b1: "case r1 of None \<Rightarrow> True | Some xs \<Rightarrow> list_all benign xs"
    using items_from_call_safe [OF bo] by (cases "is_callable fn") auto
  show ?case
    using Cons b1 by (cases r1) (simp_all add: g r1)
qed

lemma iter_items_safe:
  assumes b: "benign res"
  shows "\<exists>xs. iter_items_from_resource res = Inr xs \<and> list_all benign xs"
proof -
  obtain r1 where r1: "items_from_attrs res cand_attrs = Inr r1"
    and b1: "case r1 of None \<Rightarrow> True | Some xs \<Rightarrow> list_all benign xs"
    using items_from_attrs_safe [OF b] by blast
  obtain r2 where r2: "items_from_getters res getter_methods = Inr r2"
    and b2: "case r2 of None \<Rightarrow> True | Some xs \<Rightarrow> list_all benign xs"
    using items_from_getters_safe [OF b] by blast
  show ?thesis
    using b1 b2 by (cases r1; cases r2) (simp_all add: iter_items_from_resource_def r1 r2)
qed

lemma process_resource_full_safe:
  assumes l: "loads_safe loads" and b: "benign res"
    and w: "\<forall>n. case write_error fs n of None \<Rightarrow> True | Some e \<Rightarrow> is_Exception e"
  shows "\<exists>st1. process_resource_full fs loads dumper st res = Inr st1"
proof -
  obtain t where t: "detect_tag_full res = Inr t" using detect_tag_full_safe [OF b] by blast
  obtain xs where xs: "iter_items_from_resource res = Inr xs" and bx: "list_all benign xs"
    using iter_items_safe [OF b] by blast
  have "\<exists>st1. process_items_full fs loads dumper tf t st xs = Inr st1" for tf
    using process_items_full_safe [OF l w bx] by blast
  then show ?thesis
    by (cases "classify t") (auto simp: process_resource_full_def t xs)
qed

lemma process_resources_full_safe:
  assumes l: "loads_safe loads"
    and w: "\<forall>n. case write_error fs n of None \<Rightarrow> True | Some e \<Rightarrow> is_Exception e"
  shows "list_all benign rs \<Longrightarrow> \<exists>st1. process_resources_full fs loads dumper st rs = Inr st1"
proof (induction rs arbitrary: st)
  case Nil
  then show ?case by simp
next
  case (Cons res rs)
  then have b: "benign res" and bs: "list_all benign rs" by auto
  obtain st1 where "process_resource_full fs loads dumper st res = Inr st1"
    using process_resource_full_safe [OF l b w] by blast
  then show ?case using Cons.IH [OF bs] by simp
qed

lemma process_without_sample:
  "list_all benign rs \<Longrightarrow> loads_safe loads \<Longrightarrow>
   \<exists>st1. process_resources_full fs loads False st rs = Inr st1"
proof -
  assume b: "list_all benign rs" and l: "loads_safe loads"
  have d: "dump_item_full fs loads False st item = Inr st" for st item
    by (simp add: dump_item_full_def)
  have i: "list_all benign items \<Longrightarrow>
      \<exists>st1. process_items_full fs loads False tf tag st items = Inr st1" for items tf tag st
  proof (induction items arbitrary: st)
    case Nil
    then show ?case by simp
  next
    case (Cons item items)
    then have bi: "benign item" and bs: "list_all benign items" by auto
    obtain e where e: "item_entry_full loads tf tag item = Inr e"
      using item_entry_full_safe [OF l bi] by blast
    show ?case using Cons.IH [OF bs] d e by simp
  qed
  have r: "benign res \<Longrightarrow> \<exists>st1. process_resource_full fs loads False st res = Inr st1" for res st
  proof -
    assume br: "benign res"
    obtain t where t: "detect_tag_full res = Inr t" using detect_tag_full_safe [OF br] by blast
    obtain xs where xs: "iter_items_from_resource res = Inr xs" and bx: "list_all benign xs"
      using iter_items_safe [OF br] by blast
    show ?thesis using i [OF bx]
      by (cases "classify t") (auto simp: process_resource_full_def t xs)
  qed
  show ?thesis using b
  proof (induction rs arbitrary: st)
    case Nil
    then show ?case by simp
  next
    case (Cons res rs)
    then have br: "benign res" and bs: "list_all benign rs" by auto
    obtain st1 where "process_resource_full fs loads False st res = Inr st1" using r [OF br] by blast
    then show ?case using Cons.IH [OF bs] by simp
  qed
qed

lemma compose_full_safe:
  assumes l: "loads_safe loads" and b: "list_all benign resources"
    and f: "dump_path \<noteq> None \<and> dump_path \<noteq> Some [] \<longrightarrow> files_ok fs"
  shows "\<exists>out smp. compose_import_hcl_full fs loads resources dump_path = Inr (out, smp)"
proof (cases "dump_path \<noteq> None \<and> dump_path \<noteq> Some []")
  case False
  obtain st1 where "process_resources_full fs loads False \<lparr>blocks = [], dumped = 0, sample = [], attempts = 0\<rparr> resources
      = Inr st1"
    using process_without_sample [OF b l] by blast
  then show ?thesis using False by (auto simp: compose_import_hcl_full_def)
next
  case True
  then have ok: "files_ok fs" using f by auto
  then have w: "\<forall>n. case write_error fs n of None \<Rightarrow> True | Some e \<Rightarrow> is_Exception e"
    by (simp add: files_ok_def)
  obtain st1 where "process_resources_full fs loads True \<lparr>blocks = [], dumped = 0, sample = [], attempts = 0\<rparr> resources
      = Inr st1"
    using process_resources_full_safe [OF l w b] by blast
  then show ?thesis using True ok by (auto simp: compose_import_hcl_full_def files_ok_def)
qed

subsection \<open>The refined pass on the example\<close>

text \<open>On the example groups, with no sample file, the pass with the special methods and
  file operations spelled out returns what the pass of the preceding sections returns.\<close>

lemma full_agrees_on_example:
  "compose_import_hcl_full working_files json_reject example_groups None
   = compose_import_hcl json_reject example_groups None"
  by code_simp

text \<open>On a full disk where every second \<open>write\<close> fails, five records leave three
  lines in the sample: the failed writes are swallowed and not counted.\<close>

lemma full_disk_sample:
  "map_sum id (\<lambda>r. map_option length (snd r))
     (compose_import_hcl_full full_disk json_reject
        [resource_of 1 ''SCRIPT'' (replicate 5 plain_item)] (Some ''dump.jsonl''))
   = Inr (Some 3)"
  by code_simp

subsection \<open>What escapes, and what cannot\<close>

text \<open>C3, as stated, fails. The calls of the strategies stand inside
  \<open>try ... except Exception\<close>, but other steps stand outside any \<open>try\<close>:
  \<^item> attributes are read through \<open>getattr(o, name, None)\<close> and \<open>hasattr\<close>, which
    suppress \<open>AttributeError\<close> only, so a record whose \<open>data\<close> is a property raising
    \<open>ValueError\<close> makes the prober, and the compile pass over a group holding that
    record, raise \<open>ValueError\<close>;
  \<^item> the diagnostic for a record without identifier is built with \<open>repr(item)\<close>, so a
    record without identifier whose \<open>__repr__\<close> raises \<open>RuntimeError\<close> makes the
    compile pass raise \<open>RuntimeError\<close>;
  \<^item> the sample file is opened before the first group is visited, so a sample path that
    cannot be opened makes the compile pass raise, here \<open>FileNotFoundError\<close>, whatever
    the groups are.\<close>

theorem raising_property_counterexample:
  "obj_to_dict_deep json_reject raising_record 3 = Inl ValueError
   \<and> compose_import_hcl_full working_files json_reject [resource_of 1 ''SCRIPT'' [raising_record]] None
       = Inl ValueError
   \<and> compose_import_hcl_full working_files json_reject [resource_of 1 ''SCRIPT'' [unprintable_record]] None
       = Inl (OtherError ''RuntimeError'')
   \<and> compose_import_hcl_full missing_directory json_reject [] (Some ''out/dump.jsonl'')
       = Inl (OtherError ''FileNotFoundError'')"
  by code_simp

text \<open>C3, amended. Let \<open>json.loads\<close> raise only exceptions deriving from \<open>Exception\<close>
  and return benign values. Then
  \<^item> for every benign record (no attribute read raises; every failing call raises an
    exception deriving from \<open>Exception\<close>; \<open>repr\<close>, \<open>str\<close>, the truth value and the
    comparison with \<open>""\<close> of the instances in it raise nothing; the mapping-like
    instances in it enumerate string keys) and every \<open>max_depth\<close>, the prober returns a
    field map or none, every failure inside a strategy being swallowed;
  \<^item> for benign resources, and file operations that succeed whenever a sample path is
    configured (\<open>open\<close>, \<open>close\<close> and the final \<open>print\<close> raise nothing; each
    \<open>write\<close> that fails raises an exception deriving from \<open>Exception\<close>), the compile pass, with
    every \<open>str\<close>, \<open>repr\<close>, truth test, comparison and file operation of the source as
    a step that may raise, returns its output text.
  The limits of the interpreter (recursion depth, memory) are not part of the embedding.\<close>

theorem no_exception_escapes:
  assumes "loads_safe loads"
  shows "(benign obj \<longrightarrow> (\<exists>r. obj_to_dict_deep loads obj max_depth = Inr r))
       \<and> (list_all benign resources \<and> (dump_path \<noteq> None \<and> dump_path \<noteq> Some [] \<longrightarrow> files_ok fs) \<longrightarrow>
            (\<exists>out smp. compose_import_hcl_full fs loads resources dump_path = Inr (out, smp)))"
proof (intro conjI impI)
  assume "benign obj"
  then have "good_probe (obj_to_dict_deep loads obj max_depth)" by (rule probe_safe [OF assms])
  then show "\<exists>r. obj_to_dict_deep loads obj max_depth = Inr r"
    by (cases "obj_to_dict_deep loads obj max_depth") (simp_all add: good_probe_def)
next
  assume "list_all benign resources \<and> (dump_path \<noteq> None \<and> dump_path \<noteq> Some [] \<longrightarrow> files_ok fs)"
  then show "\<exists>out smp. compose_import_hcl_full fs loads resources dump_path = Inr (out, smp)"
    using compose_full_safe [OF assms, of resources dump_path fs] by blast
qed

theorem no_exception_escapes_witness:
  "\<not> isl (obj_to_dict_deep json_reject failing_method_record 3)
   \<and> \<not> isl (compose_import_hcl_full full_disk json_reject
               [resource_of 1 ''SCRIPT'' [failing_method_record]] (Some ''dump.jsonl''))"
proof -
  have l: "loads_safe json_reject"
    by (simp add: loads_safe_def json_reject_def is_Exception_def)
  have b: "benign failing_method_record"
    by (simp add: failing_method_record_def is_Exception_def quiet_specials_def string_keys_def
        repr_obj_def str_obj_def bool_obj_def ne_empty_obj_def special_def)
  have bs: "list_all benign [resource_of 1 ''SCRIPT'' [failing_method_record]]"
    using b by (simp add: resource_of_def quiet_specials_def string_keys_def
        repr_obj_def str_obj_def bool_obj_def ne_empty_obj_def special_def)
  have f: "files_ok full_disk"
    by (simp add: files_ok_def full_disk_def working_files_def is_Exception_def)
  show ?thesis
    using no_exception_escapes [OF l, of failing_method_record 3
        "[resource_of 1 ''SCRIPT'' [failing_method_record]]" "Some ''dump.jsonl''" full_disk] b bs f
    by auto
qed

end
